theory Spec2Isabelle
  imports Main
begin

section \<open>Common conventions\<close>

text \<open>
  The two components of the repository are modelled as they are written in
  \<^verbatim>\<open>breutil/block_queue.hpp\<close> and \<^verbatim>\<open>breutils/buffer.hpp\<close>.

  \<^item> \<^verbatim>\<open>size_t\<close> is the 64-bit unsigned integer of an LP64 platform and \<^verbatim>\<open>int\<close> is
    32 bits wide. Sizes are natural numbers; where the source adds or subtracts sizes
    the wrap-around modulo \<open>2 ^ 64\<close> is written out (\<open>size_add\<close>, \<open>size_sub\<close>).
  \<^item> C++ exceptions are values of type \<open>error\<close>, named after the exception class and
    carrying the message of the source.
  \<^item> Every member function of the queue runs its body under the queue's mutex, so it is
    one atomic step on the queue's fields. A call that reaches a condition-variable wait
    whose predicate is false does not return: its status is \<open>Waits\<close>. The notifications
    a step issues on the two condition variables are returned with it.
\<close>

datatype error = runtime_error string | length_error string

definition size_add :: "nat \<Rightarrow> nat \<Rightarrow> nat" where
  "size_add a b = (a + b) mod 2 ^ 64"

definition size_sub :: "nat \<Rightarrow> nat \<Rightarrow> nat" where
  "size_sub a b = nat ((int a - int b) mod 2 ^ 64)"

text \<open>Narrowing of a non-negative \<^verbatim>\<open>ptrdiff_t\<close> to \<^verbatim>\<open>int\<close> (two's complement, modular).\<close>

definition to_int :: "nat \<Rightarrow> int" where
  "to_int n = (int n + 2 ^ 31) mod 2 ^ 32 - 2 ^ 31"

text \<open>Conversion of an \<^verbatim>\<open>int\<close> to \<^verbatim>\<open>size_t\<close> in mixed arithmetic.\<close>

definition size_of_int :: "int \<Rightarrow> nat" where
  "size_of_int i = nat (i mod 2 ^ 64)"

section \<open>BlockQueue\<close>

record 'a BlockQueue =
  capacity :: nat
  isClose :: bool
  queue :: "'a list"

datatype cond = condConsumer | condProducer

datatype signal = notify_one cond | notify_all cond

datatype 'r status = Returns 'r | Throws error | Waits

type_synonym ('r, 'a) step = "'r status \<times> 'a BlockQueue \<times> signal list"

text \<open>The constructor; \<^verbatim>\<open>MaxCapacity\<close> defaults to 1024.\<close>

definition new_BlockQueue :: "nat \<Rightarrow> 'a BlockQueue" where
  "new_BlockQueue MaxCapacity = \<lparr>capacity = MaxCapacity, isClose = False, queue = []\<rparr>"

definition Empty :: "'a BlockQueue \<Rightarrow> bool" where
  "Empty q = (queue q = [])"

definition Full :: "'a BlockQueue \<Rightarrow> bool" where
  "Full q = (length (queue q) \<ge> capacity q)"

definition IsClosed :: "'a BlockQueue \<Rightarrow> bool" where
  "IsClosed q = isClose q"

definition Size :: "'a BlockQueue \<Rightarrow> nat" where
  "Size q = length (queue q)"

definition Capacity :: "'a BlockQueue \<Rightarrow> nat" where
  "Capacity q = capacity q"

definition Clear :: "'a BlockQueue \<Rightarrow> (unit, 'a) step" where
  "Clear q = (Returns (), q\<lparr>queue := []\<rparr>, [notify_all condProducer])"

definition Close :: "'a BlockQueue \<Rightarrow> (unit, 'a) step" where
  "Close q =
     (Returns (), q\<lparr>isClose := True\<rparr>, [notify_all condProducer, notify_all condConsumer])"

definition SetCapacity :: "nat \<Rightarrow> 'a BlockQueue \<Rightarrow> (unit, 'a) step" where
  "SetCapacity newCapacity q =
     (let q' = q\<lparr>capacity := newCapacity\<rparr>
      in (Returns (), q',
          if length (queue q') < capacity q' then [notify_all condProducer] else []))"

definition TryPush :: "'a \<Rightarrow> 'a BlockQueue \<Rightarrow> (bool, 'a) step" where
  "TryPush item q =
     (if isClose q \<or> length (queue q) \<ge> capacity q then (Returns False, q, [])
      else (Returns True, q\<lparr>queue := queue q @ [item]\<rparr>, [notify_one condConsumer]))"

text \<open>The predicates of the two condition-variable waits.\<close>

definition producer_ready :: "'a BlockQueue \<Rightarrow> bool" where
  "producer_ready q = (isClose q \<or> length (queue q) < capacity q)"

definition consumer_ready :: "'a BlockQueue \<Rightarrow> bool" where
  "consumer_ready q = (isClose q \<or> queue q \<noteq> [])"

definition Push :: "'a \<Rightarrow> 'a BlockQueue \<Rightarrow> (unit, 'a) step" where
  "Push item q =
     (if \<not> producer_ready q then (Waits, q, [])
      else if isClose q then (Throws (runtime_error ''Queue is closed''), q, [])
      else (Returns (), q\<lparr>queue := queue q @ [item]\<rparr>, [notify_one condConsumer]))"

definition TryPop :: "'a BlockQueue \<Rightarrow> ('a option, 'a) step" where
  "TryPop q =
     (case queue q of
        [] \<Rightarrow> (Returns None, q, [])
      | x # xs \<Rightarrow> (Returns (Some x), q\<lparr>queue := xs\<rparr>, [notify_one condProducer]))"

text \<open>
  \<^verbatim>\<open>bool Pop(T &item)\<close>: the reference parameter is passed in and returned next to the
  boolean; it is left as it was when the call returns false.
\<close>

definition Pop :: "'a \<Rightarrow> 'a BlockQueue \<Rightarrow> (bool \<times> 'a, 'a) step" where
  "Pop item q =
     (if \<not> consumer_ready q then (Waits, q, [])
      else case queue q of
        [] \<Rightarrow> (Returns (False, item), q, [])
      | x # xs \<Rightarrow> (Returns (True, x), q\<lparr>queue := xs\<rparr>, [notify_one condProducer]))"

text \<open>
  The batch overload \<^verbatim>\<open>bool Push(InputIt first, InputIt last)\<close>. The range is the list
  of its elements. \<^verbatim>\<open>int count = std::distance(first, last)\<close> narrows the length to an
  \<^verbatim>\<open>int\<close>, and \<^verbatim>\<open>_queue.size() + count\<close> is computed in \<^verbatim>\<open>size_t\<close>.

  When the range does not go in at once, the source pushes the elements one by one with
  the blocking \<^verbatim>\<open>Push\<close>, writes \<^verbatim>\<open>result = Push(*it)\<close> and returns false when
  \<^verbatim>\<open>result\<close> is false. The blocking \<^verbatim>\<open>Push\<close> returns nothing and reports a closed
  queue by throwing, so no false result exists: the loop ends by returning true, by the
  exception of a \<^verbatim>\<open>Push\<close>, or it waits inside a \<^verbatim>\<open>Push\<close>.
\<close>

fun Push_each :: "'a list \<Rightarrow> 'a BlockQueue \<Rightarrow> (bool, 'a) step" where
  "Push_each [] q = (Returns True, q, [])"
| "Push_each (x # xs) q =
     (case Push x q of
        (Returns _, q', s) \<Rightarrow> (case Push_each xs q' of (r, q'', s') \<Rightarrow> (r, q'', s @ s'))
      | (Throws e, q', s) \<Rightarrow> (Throws e, q', s)
      | (Waits, q', s) \<Rightarrow> (Waits, q', s))"

definition Push_range :: "'a list \<Rightarrow> 'a BlockQueue \<Rightarrow> (bool, 'a) step" where
  "Push_range xs q =
     (let count = to_int (length xs)
      in if \<not> isClose q \<and> size_add (length (queue q)) (size_of_int count) \<le> capacity q
         then (Returns True, q\<lparr>queue := foldl (\<lambda>s x. s @ [x]) (queue q) xs\<rparr>,
               [notify_all condConsumer])
         else Push_each xs q)"

text \<open>
  The batch overload \<^verbatim>\<open>size_t Pop(OutputIt dest, size_t maxCount)\<close>. The elements written
  through \<^verbatim>\<open>dest\<close> are returned, in the order they are written, next to the count.
  \<open>drain\<close> is the \<^verbatim>\<open>while\<close> loop.
\<close>

fun drain :: "nat \<Rightarrow> nat \<Rightarrow> 'a list \<Rightarrow> 'a list \<Rightarrow> nat \<times> 'a list \<times> 'a list" where
  "drain maxCount count dest [] = (count, dest, [])"
| "drain maxCount count dest (x # xs) =
     (if count < maxCount then drain maxCount (count + 1) (dest @ [x]) xs
      else (count, dest, x # xs))"

definition Pop_batch :: "nat \<Rightarrow> 'a BlockQueue \<Rightarrow> (nat \<times> 'a list, 'a) step" where
  "Pop_batch maxCount q =
     (if \<not> consumer_ready q then (Waits, q, [])
      else case drain maxCount 0 [] (queue q) of
        (count, dest, rest) \<Rightarrow>
          (Returns (count, dest), q\<lparr>queue := rest\<rparr>,
           if count > 0 then [notify_all condProducer] else []))"

subsection \<open>Clients of the queue\<close>

text \<open>
  A consumer that calls \<^verbatim>\<open>Pop(item)\<close> \<open>n\<close> times on the same variable: the list of
  the results (the boolean and the variable after each call). It ends early when a call
  does not return.
\<close>

fun Pop_times :: "nat \<Rightarrow> 'a \<Rightarrow> 'a BlockQueue \<Rightarrow> ((bool \<times> 'a) list, 'a) step" where
  "Pop_times 0 item q = (Returns [], q, [])"
| "Pop_times (Suc n) item q =
     (case Pop item q of
        (Returns (ok, item'), q', s) \<Rightarrow>
          (case Pop_times n item' q' of
             (Returns rs, q'', s') \<Rightarrow> (Returns ((ok, item') # rs), q'', s @ s')
           | (Throws e, q'', s') \<Rightarrow> (Throws e, q'', s @ s')
           | (Waits, q'', s') \<Rightarrow> (Waits, q'', s @ s'))
      | (Throws e, q', s) \<Rightarrow> (Throws e, q', s)
      | (Waits, q', s) \<Rightarrow> (Waits, q', s))"

text \<open>A producer that calls \<^verbatim>\<open>Push\<close> for each element of a list in turn.\<close>

fun Push_all :: "'a list \<Rightarrow> 'a BlockQueue \<Rightarrow> (unit, 'a) step" where
  "Push_all [] q = (Returns (), q, [])"
| "Push_all (x # xs) q =
     (case Push x q of
        (Returns _, q', s) \<Rightarrow> (case Push_all xs q' of (r, q'', s') \<Rightarrow> (r, q'', s @ s'))
      | (Throws e, q', s) \<Rightarrow> (Throws e, q', s)
      | (Waits, q', s) \<Rightarrow> (Waits, q', s))"

text \<open>The three components of a step.\<close>

definition status_of :: "('r, 'a) step \<Rightarrow> 'r status" where
  "status_of st = fst st"

definition state_of :: "('r, 'a) step \<Rightarrow> 'a BlockQueue" where
  "state_of st = fst (snd st)"

definition signals_of :: "('r, 'a) step \<Rightarrow> signal list" where
  "signals_of st = snd (snd st)"

text \<open>
  The calls that touch the fields of the queue, and the state a call leaves behind
  (whether it returns, throws or waits). Each call holds the mutex while it reads and
  writes the fields, so every execution of a program with several threads is a sequence
  of such steps; a waiting call that is woken up behaves as the same call made anew.
\<close>

datatype 'a call =
    Call_Clear
  | Call_Close
  | Call_SetCapacity nat
  | Call_TryPush 'a
  | Call_Push 'a
  | Call_TryPop
  | Call_Pop 'a
  | Call_Push_range "'a list"
  | Call_Pop_batch nat

fun after :: "'a call \<Rightarrow> 'a BlockQueue \<Rightarrow> 'a BlockQueue" where
  "after Call_Clear q = state_of (Clear q)"
| "after Call_Close q = state_of (Close q)"
| "after (Call_SetCapacity n) q = state_of (SetCapacity n q)"
| "after (Call_TryPush x) q = state_of (TryPush x q)"
| "after (Call_Push x) q = state_of (Push x q)"
| "after Call_TryPop q = state_of (TryPop q)"
| "after (Call_Pop item) q = state_of (Pop item q)"
| "after (Call_Push_range xs) q = state_of (Push_range xs q)"
| "after (Call_Pop_batch n) q = state_of (Pop_batch n q)"

fun run :: "'a call list \<Rightarrow> 'a BlockQueue \<Rightarrow> 'a BlockQueue" where
  "run [] q = q"
| "run (c # cs) q = run cs (after c q)"

text \<open>
  \<open>lowers c q\<close>: the call is a \<^verbatim>\<open>SetCapacity\<close> that sets the capacity below the number
  of stored elements. \<open>int_range c q\<close>: the length of a batch fits the \<^verbatim>\<open>int\<close> that
  \<^verbatim>\<open>Push(first, last)\<close> stores it in, and the sum with the size fits \<^verbatim>\<open>size_t\<close>.
\<close>

fun lowers :: "'a call \<Rightarrow> 'a BlockQueue \<Rightarrow> bool" where
  "lowers (Call_SetCapacity n) q = (n < Size q)"
| "lowers _ q = False"

fun int_range :: "'a call \<Rightarrow> 'a BlockQueue \<Rightarrow> bool" where
  "int_range (Call_Push_range xs) q = (length xs < 2 ^ 31 \<and> Size q + length xs < 2 ^ 64)"
| "int_range _ q = True"

fun never_lowered :: "'a call list \<Rightarrow> 'a BlockQueue \<Rightarrow> bool" where
  "never_lowered [] q = True"
| "never_lowered (c # cs) q = (\<not> lowers c q \<and> never_lowered cs (after c q))"

fun all_int_range :: "'a call list \<Rightarrow> 'a BlockQueue \<Rightarrow> bool" where
  "all_int_range [] q = True"
| "all_int_range (c # cs) q = (int_range c q \<and> all_int_range cs (after c q))"


section \<open>Buffer\<close>

text \<open>
  \<^verbatim>\<open>std::vector<char> _buffer\<close> is a list of characters and the two indices are sizes. A
  pointer into the vector is the index it points at. A pointer \<^verbatim>\<open>data\<close> passed with a
  length \<^verbatim>\<open>len\<close> is the list of the \<^verbatim>\<open>len\<close> bytes it points to. Allocation is
  assumed to succeed. Reading or writing outside the vector is undefined in the source;
  the invariant \<open>well_formed\<close> below keeps every access of the modelled functions inside.
\<close>

definition kInitialSize :: nat where
  "kInitialSize = 1024"

definition kPrependSize :: nat where
  "kPrependSize = 8"

record Buffer =
  buffer :: "char list"
  readIndex :: nat
  writeIndex :: nat

text \<open>The constructor: a vector of \<^verbatim>\<open>kPrependSize + initialSize\<close> zero bytes.\<close>

definition new_Buffer :: "nat \<Rightarrow> Buffer" where
  "new_Buffer initialSize =
     \<lparr>buffer = replicate (size_add kPrependSize initialSize) (CHR 0x00),
      readIndex = kPrependSize, writeIndex = kPrependSize\<rparr>"

definition ReadableBytes :: "Buffer \<Rightarrow> nat" where
  "ReadableBytes b = size_sub (writeIndex b) (readIndex b)"

definition WritableBytes :: "Buffer \<Rightarrow> nat" where
  "WritableBytes b = size_sub (length (buffer b)) (writeIndex b)"

definition PrependableBytes :: "Buffer \<Rightarrow> nat" where
  "PrependableBytes b = readIndex b"

text \<open>\<^verbatim>\<open>std::string(Peek(), ReadableBytes())\<close>: the readable bytes.\<close>

definition ToString :: "Buffer \<Rightarrow> string" where
  "ToString b = take (ReadableBytes b) (drop (readIndex b) (buffer b))"

definition RetrieveAll :: "Buffer \<Rightarrow> Buffer" where
  "RetrieveAll b = b\<lparr>readIndex := kPrependSize, writeIndex := kPrependSize\<rparr>"

definition Retrieve :: "nat \<Rightarrow> Buffer \<Rightarrow> Buffer" where
  "Retrieve len b =
     (if len < ReadableBytes b then b\<lparr>readIndex := size_add (readIndex b) len\<rparr>
      else RetrieveAll b)"

definition RetrieveAsString :: "nat \<Rightarrow> Buffer \<Rightarrow> string \<times> Buffer" where
  "RetrieveAsString len b =
     (let len' = (if len > ReadableBytes b then ReadableBytes b else len);
          result = take len' (drop (readIndex b) (buffer b))
      in (result, Retrieve len' b))"

definition RetrieveAllAsString :: "Buffer \<Rightarrow> string \<times> Buffer" where
  "RetrieveAllAsString b = RetrieveAsString (ReadableBytes b) b"

definition HasWritten :: "nat \<Rightarrow> Buffer \<Rightarrow> Buffer" where
  "HasWritten len b =
     (if len \<le> WritableBytes b then b\<lparr>writeIndex := size_add (writeIndex b) len\<rparr> else b)"

definition HasRead :: "nat \<Rightarrow> Buffer \<Rightarrow> Buffer" where
  "HasRead len b = Retrieve len b"

text \<open>
  \<^verbatim>\<open>std::copy\<close> from bytes outside the vector to the index \<open>d\<close>, one element after the
  other.
\<close>

fun copy_in :: "char list \<Rightarrow> nat \<Rightarrow> char list \<Rightarrow> char list" where
  "copy_in [] d buf = buf"
| "copy_in (x # xs) d buf = copy_in xs (d + 1) (buf[d := x])"

text \<open>
  \<^verbatim>\<open>std::copy\<close> of \<open>n\<close> elements from the index \<open>s\<close> to the index \<open>d\<close> of the same
  vector, front to back: an element already overwritten is read as overwritten.
\<close>

fun copy_within :: "nat \<Rightarrow> nat \<Rightarrow> nat \<Rightarrow> char list \<Rightarrow> char list" where
  "copy_within 0 s d buf = buf"
| "copy_within (Suc n) s d buf = copy_within n (s + 1) (d + 1) (buf[d := buf ! s])"

text \<open>\<^verbatim>\<open>std::vector::resize\<close>: cut, or filled up with zero bytes.\<close>

definition resize :: "nat \<Rightarrow> char list \<Rightarrow> char list" where
  "resize n buf = take n buf @ replicate (n - length buf) (CHR 0x00)"

definition makeSpace :: "nat \<Rightarrow> Buffer \<Rightarrow> Buffer" where
  "makeSpace len b =
     (if size_add (WritableBytes b) (PrependableBytes b) < size_add len kPrependSize
      then b\<lparr>buffer := resize (size_add (writeIndex b) len) (buffer b)\<rparr>
      else
        (let readable = ReadableBytes b
         in b\<lparr>buffer := copy_within (writeIndex b - readIndex b) (readIndex b)
                           kPrependSize (buffer b),
              readIndex := kPrependSize,
              writeIndex := size_add kPrependSize readable\<rparr>))"

definition EnsureWritableBytes :: "nat \<Rightarrow> Buffer \<Rightarrow> Buffer" where
  "EnsureWritableBytes len b = (if WritableBytes b < len then makeSpace len b else b)"

definition Append :: "string \<Rightarrow> Buffer \<Rightarrow> Buffer" where
  "Append data b =
     (let len = length data;
          b1 = EnsureWritableBytes len b;
          b2 = b1\<lparr>buffer := copy_in data (writeIndex b1) (buffer b1)\<rparr>
      in HasWritten len b2)"

text \<open>
  \<^verbatim>\<open>Prepend\<close> throws before it changes anything; the buffer is returned next to the
  status.
\<close>

definition Prepend :: "string \<Rightarrow> Buffer \<Rightarrow> unit status \<times> Buffer" where
  "Prepend data b =
     (let len = length data
      in if len > PrependableBytes b
         then (Throws (length_error ''Buffer::Prepend: not enough space''), b)
         else
           (let r = size_sub (readIndex b) len
            in (Returns (), b\<lparr>readIndex := r, buffer := copy_in data r (buffer b)\<rparr>)))"

text \<open>
  The states a buffer is in between calls: the indices are ordered and inside the
  vector, the write index is never below the reserved region, and sizes are
  \<^verbatim>\<open>size_t\<close> values.
\<close>

definition well_formed :: "Buffer \<Rightarrow> bool" where
  "well_formed b =
     (readIndex b \<le> writeIndex b \<and> writeIndex b \<le> length (buffer b) \<and>
      kPrependSize \<le> writeIndex b \<and> length (buffer b) < 2 ^ 64)"

section \<open>Arithmetic of sizes\<close>

lemma size_add_small: "a + b < 2 ^ 64 \<Longrightarrow> size_add a b = a + b"
  unfolding size_add_def by (rule mod_less)

lemma int_less_pow: "n < 2 ^ k \<Longrightarrow> int n < 2 ^ k"
  by (simp only: of_nat_less_numeral_power_cancel_iff)

lemma size_sub_small: "b \<le> a \<Longrightarrow> a < 2 ^ 64 \<Longrightarrow> size_sub a b = a - b"
proof -
  assume le: "b \<le> a" and lt: "a < 2 ^ 64"
  have d: "int a - int b = int (a - b)" using le by (simp only: of_nat_diff)
  have "a - b < 2 ^ 64" using lt by (rule le_less_trans [OF diff_le_self])
  then have "int (a - b) < 2 ^ 64" by (rule int_less_pow)
  then have "int (a - b) mod 2 ^ 64 = int (a - b)"
    by (intro mod_pos_pos_trivial) (rule of_nat_0_le_iff)
  then show ?thesis unfolding size_sub_def d by (simp only: nat_int)
qed

lemma size_of_int_small: "n < 2 ^ 64 \<Longrightarrow> size_of_int (int n) = n"
proof -
  assume "n < 2 ^ 64"
  then have "int n < 2 ^ 64" by (rule int_less_pow)
  then have "int n mod 2 ^ 64 = int n"
    by (intro mod_pos_pos_trivial) (rule of_nat_0_le_iff)
  then show ?thesis unfolding size_of_int_def by (simp only: nat_int)
qed

lemma to_int_small: "n < 2 ^ 31 \<Longrightarrow> to_int n = int n"
proof -
  assume "n < 2 ^ 31"
  then have "int n < 2 ^ 31" by (rule int_less_pow)
  then have "int n + 2 ^ 31 < 2 ^ 32" by simp
  moreover have "0 \<le> int n + 2 ^ 31" by simp
  ultimately have "(int n + 2 ^ 31) mod 2 ^ 32 = int n + 2 ^ 31"
    by (intro mod_pos_pos_trivial)
  then show ?thesis unfolding to_int_def by simp
qed

section \<open>Properties of the queue\<close>

subsection \<open>Single calls\<close>

lemma step_parts [simp]:
  "status_of (r, q, s) = r" "state_of (r, q, s) = q" "signals_of (r, q, s) = s"
  by (simp_all add: status_of_def state_of_def signals_of_def)

lemma Push_open_room:
  "\<not> isClose q \<Longrightarrow> length (queue q) < capacity q \<Longrightarrow>
   Push x q = (Returns (), q\<lparr>queue := queue q @ [x]\<rparr>, [notify_one condConsumer])"
  by (simp add: Push_def producer_ready_def)

lemma Push_open_full:
  "\<not> isClose q \<Longrightarrow> capacity q \<le> length (queue q) \<Longrightarrow> Push x q = (Waits, q, [])"
  by (simp add: Push_def producer_ready_def)

lemma Push_closed:
  "isClose q \<Longrightarrow> Push x q = (Throws (runtime_error ''Queue is closed''), q, [])"
  by (simp add: Push_def producer_ready_def)

lemma Pop_false_iff:
  "(\<exists>v q' s. Pop item q = (Returns (False, v), q', s)) \<longleftrightarrow> (isClose q \<and> queue q = [])"
  by (auto simp: Pop_def consumer_ready_def split: list.splits)

lemma Pop_nonempty:
  "queue q = x # xs \<Longrightarrow>
   Pop item q = (Returns (True, x), q\<lparr>queue := xs\<rparr>, [notify_one condProducer])"
  by (simp add: Pop_def consumer_ready_def)

lemma Pop_closed_empty:
  "isClose q \<Longrightarrow> queue q = [] \<Longrightarrow> Pop item q = (Returns (False, item), q, [])"
  by (simp add: Pop_def consumer_ready_def)

lemma Pop_open_empty:
  "\<not> isClose q \<Longrightarrow> queue q = [] \<Longrightarrow> Pop item q = (Waits, q, [])"
  by (simp add: Pop_def consumer_ready_def)

lemma foldl_snoc: "foldl (\<lambda>s x. s @ [x]) ys xs = ys @ xs"
  by (induction xs arbitrary: ys) auto

subsection \<open>Repeated calls\<close>

lemma Pop_times_closed:
  "isClose q \<Longrightarrow>
   Pop_times n item q =
     (Returns (map (Pair True) (take n (queue q)) @
               replicate (n - length (queue q)) (False, last (item # take n (queue q)))),
      q\<lparr>queue := drop n (queue q)\<rparr>,
      replicate (min n (length (queue q))) (notify_one condProducer))"
proof (induction n arbitrary: item q)
  case 0
  then show ?case by simp
next
  case (Suc n)
  show ?case
  proof (cases "queue q")
    case Nil
    with Suc.prems have p: "Pop item q = (Returns (False, item), q, [])"
      by (simp add: Pop_closed_empty)
    from Suc.IH [OF Suc.prems, of item] Nil p show ?thesis
      by (simp add: replicate_append_same)
  next
    case (Cons x xs)
    then have p: "Pop item q = (Returns (True, x), q\<lparr>queue := xs\<rparr>, [notify_one condProducer])"
      by (rule Pop_nonempty)
    have c: "isClose (q\<lparr>queue := xs\<rparr>)" using Suc.prems by simp
    from Suc.IH [OF c, of x] Cons p show ?thesis
      by (simp add: min_def)
  qed
qed

lemma Pop_times_available:
  "n \<le> length (queue q) \<Longrightarrow>
   Pop_times n item q =
     (Returns (map (Pair True) (take n (queue q))), q\<lparr>queue := drop n (queue q)\<rparr>,
      replicate n (notify_one condProducer))"
proof (induction n arbitrary: item q)
  case 0
  then show ?case by simp
next
  case (Suc n)
  then obtain x xs where Cons: "queue q = x # xs"
    by (cases "queue q") auto
  then have p: "Pop item q = (Returns (True, x), q\<lparr>queue := xs\<rparr>, [notify_one condProducer])"
    by (rule Pop_nonempty)
  have "n \<le> length (queue (q\<lparr>queue := xs\<rparr>))" using Suc.prems Cons by simp
  from Suc.IH [OF this, of x] Cons p show ?case by simp
qed

lemma Push_all_open:
  "\<not> isClose q \<Longrightarrow>
   Push_all xs q =
     (if xs = [] \<or> length (queue q) + length xs \<le> capacity q
      then (Returns (), q\<lparr>queue := queue q @ xs\<rparr>,
            replicate (length xs) (notify_one condConsumer))
      else (Waits, q\<lparr>queue := queue q @ take (capacity q - length (queue q)) xs\<rparr>,
            replicate (capacity q - length (queue q)) (notify_one condConsumer)))"
proof (induction xs arbitrary: q)
  case Nil
  then show ?case by simp
next
  case (Cons x xs)
  show ?case
  proof (cases "length (queue q) < capacity q")
    case True
    let ?q = "q\<lparr>queue := queue q @ [x]\<rparr>"
    have p: "Push x q = (Returns (), ?q, [notify_one condConsumer])"
      using Cons.prems True by (rule Push_open_room)
    have o: "\<not> isClose ?q" using Cons.prems by simp
    obtain k where k: "capacity q - length (queue q) = Suc k"
      using True by (metis Suc_diff_Suc)
    then have k': "capacity q - Suc (length (queue q)) = k" by simp
    show ?thesis
      using Cons.IH [OF o] p k k' True by simp
  next
    case False
    then have "Push x q = (Waits, q, [])"
      using Cons.prems by (simp add: Push_open_full)
    with False show ?thesis by simp
  qed
qed

lemma Push_all_closed:
  "isClose q \<Longrightarrow>
   Push_all xs q =
     (if xs = [] then (Returns (), q, [])
      else (Throws (runtime_error ''Queue is closed''), q, []))"
  by (cases xs) (simp_all add: Push_closed)

lemma Push_all_Returns:
  assumes "Push_all ps q = (Returns (), q', s)"
  shows "q' = q\<lparr>queue := queue q @ ps\<rparr>"
proof (cases "isClose q")
  case True
  with assms show ?thesis by (simp add: Push_all_closed split: if_splits)
next
  case False
  with assms show ?thesis by (simp add: Push_all_open split: if_splits)
qed

lemma Push_each_open:
  "\<not> isClose q \<Longrightarrow>
   Push_each xs q =
     (if xs = [] \<or> length (queue q) + length xs \<le> capacity q
      then (Returns True, q\<lparr>queue := queue q @ xs\<rparr>,
            replicate (length xs) (notify_one condConsumer))
      else (Waits, q\<lparr>queue := queue q @ take (capacity q - length (queue q)) xs\<rparr>,
            replicate (capacity q - length (queue q)) (notify_one condConsumer)))"
proof (induction xs arbitrary: q)
  case Nil
  then show ?case by simp
next
  case (Cons x xs)
  show ?case
  proof (cases "length (queue q) < capacity q")
    case True
    let ?q = "q\<lparr>queue := queue q @ [x]\<rparr>"
    have p: "Push x q = (Returns (), ?q, [notify_one condConsumer])"
      using Cons.prems True by (rule Push_open_room)
    have o: "\<not> isClose ?q" using Cons.prems by simp
    obtain k where k: "capacity q - length (queue q) = Suc k"
      using True by (metis Suc_diff_Suc)
    then have k': "capacity q - Suc (length (queue q)) = k" by simp
    show ?thesis
      using Cons.IH [OF o] p k k' True by simp
  next
    case False
    then have "Push x q = (Waits, q, [])"
      using Cons.prems by (simp add: Push_open_full)
    with False show ?thesis by simp
  qed
qed

lemma Push_each_closed:
  "isClose q \<Longrightarrow>
   Push_each xs q =
     (if xs = [] then (Returns True, q, [])
      else (Throws (runtime_error ''Queue is closed''), q, []))"
  by (cases xs) (simp_all add: Push_closed)

lemma Push_range_small:
  assumes "length xs < 2 ^ 31" and "length (queue q) + length xs < 2 ^ 64"
  shows "Push_range xs q =
     (if \<not> isClose q \<and> length (queue q) + length xs \<le> capacity q
      then (Returns True, q\<lparr>queue := queue q @ xs\<rparr>, [notify_all condConsumer])
      else Push_each xs q)"
proof -
  have "length xs < 2 ^ 64"
    using assms(2) by (rule le_less_trans [OF le_add2])
  then have "size_of_int (to_int (length xs)) = length xs"
    using assms(1) by (simp only: to_int_small size_of_int_small)
  moreover have "size_add (length (queue q)) (length xs) = length (queue q) + length xs"
    using assms(2) by (rule size_add_small)
  ultimately show ?thesis
    by (simp only: Push_range_def Let_def foldl_snoc)
qed

lemma Push_all_succeeds:
  "\<not> isClose q \<Longrightarrow> length (queue q) + length ps \<le> capacity q \<Longrightarrow>
   status_of (Push_all ps q) = Returns ()"
  by (simp add: Push_all_open)

subsection \<open>Close and Pop\<close>

text \<open>
  Claim C1. The blocking \<^verbatim>\<open>Pop\<close> returns false exactly when the queue is closed and
  empty; when an element is stored it returns true with the front element, closed or
  not. After \<^verbatim>\<open>Close\<close> on a queue that holds the elements \<open>queue q\<close>, \<open>n\<close> calls of
  \<^verbatim>\<open>Pop\<close> all return: the first \<open>length (queue q)\<close> of them return true with the stored
  elements in their order, every later one returns false and leaves the variable as it
  is. No push adds an element to a closed queue. \<^verbatim>\<open>Close\<close> notifies all waiting
  producers and consumers, the predicate a waiting \<^verbatim>\<open>Push\<close> re-checks holds in the
  closed queue, and \<^verbatim>\<open>Push\<close> then throws "Queue is closed".
\<close>

theorem Pop_after_Close:
  "((\<exists>v q' s. Pop item q = (Returns (False, v), q', s)) \<longleftrightarrow> (isClose q \<and> queue q = []))
   \<and> (queue q \<noteq> [] \<longrightarrow>
        Pop item q =
          (Returns (True, hd (queue q)), q\<lparr>queue := tl (queue q)\<rparr>, [notify_one condProducer]))
   \<and> Pop_times n item (state_of (Close q)) =
        (Returns (map (Pair True) (take n (queue q)) @
                  replicate (n - length (queue q)) (False, last (item # take n (queue q)))),
         q\<lparr>isClose := True, queue := drop n (queue q)\<rparr>,
         replicate (min n (length (queue q))) (notify_one condProducer))
   \<and> state_of (TryPush x (state_of (Close q))) = state_of (Close q)
   \<and> state_of (Push x (state_of (Close q))) = state_of (Close q)
   \<and> state_of (Push_range xs (state_of (Close q))) = state_of (Close q)
   \<and> signals_of (Close q) = [notify_all condProducer, notify_all condConsumer]
   \<and> producer_ready (state_of (Close q))
   \<and> Push x (state_of (Close q)) =
        (Throws (runtime_error ''Queue is closed''), state_of (Close q), [])"
proof -
  let ?c = "state_of (Close q)"
  have c: "isClose ?c" and qc: "queue ?c = queue q" and sc: "?c = q\<lparr>isClose := True\<rparr>"
    by (simp_all add: Close_def)
  have 1: "(\<exists>v q' s. Pop item q = (Returns (False, v), q', s)) \<longleftrightarrow> (isClose q \<and> queue q = [])"
    by (rule Pop_false_iff)
  have 2: "queue q \<noteq> [] \<longrightarrow>
      Pop item q =
        (Returns (True, hd (queue q)), q\<lparr>queue := tl (queue q)\<rparr>, [notify_one condProducer])"
    by (cases "queue q") (simp_all add: Pop_nonempty)
  have 3: "Pop_times n item ?c =
      (Returns (map (Pair True) (take n (queue q)) @
                replicate (n - length (queue q)) (False, last (item # take n (queue q)))),
       q\<lparr>isClose := True, queue := drop n (queue q)\<rparr>,
       replicate (min n (length (queue q))) (notify_one condProducer))"
    using Pop_times_closed [OF c, of n item] by (simp add: sc)
  have 4: "state_of (TryPush x ?c) = ?c"
    using c by (simp add: TryPush_def)
  have 5: "Push x ?c = (Throws (runtime_error ''Queue is closed''), ?c, [])"
    using c by (rule Push_closed)
  have "Push_range xs ?c = Push_each xs ?c"
    using c by (simp add: Push_range_def)
  moreover have "state_of (Push_each xs ?c) = ?c"
    using c by (simp add: Push_each_closed)
  ultimately have 6: "state_of (Push_range xs ?c) = ?c" by simp
  have 7: "signals_of (Close q) = [notify_all condProducer, notify_all condConsumer]"
    by (simp add: Close_def)
  have 8: "producer_ready ?c"
    using c by (simp add: producer_ready_def)
  from 1 2 3 4 5 6 7 8 show ?thesis by simp
qed

theorem Pop_after_Close_witness:
  "Pop 0 \<lparr>capacity = 2, isClose = False, queue = [5, 7 :: nat]\<rparr> =
     (Returns (True, 5), \<lparr>capacity = 2, isClose = False, queue = [7]\<rparr>, [notify_one condProducer])
   \<and> Pop_times 4 0 (state_of (Close \<lparr>capacity = 2, isClose = False, queue = [5, 7 :: nat]\<rparr>)) =
       (Returns [(True, 5), (True, 7), (False, 7), (False, 7)],
        \<lparr>capacity = 2, isClose = True, queue = []\<rparr>,
        [notify_one condProducer, notify_one condProducer])
   \<and> Push 9 \<lparr>capacity = 2, isClose = False, queue = [5, 7 :: nat]\<rparr> =
       (Waits, \<lparr>capacity = 2, isClose = False, queue = [5, 7]\<rparr>, [])
   \<and> Push 9 (state_of (Close \<lparr>capacity = 2, isClose = False, queue = [5, 7 :: nat]\<rparr>)) =
       (Throws (runtime_error ''Queue is closed''),
        \<lparr>capacity = 2, isClose = True, queue = [5, 7]\<rparr>, [])"
proof -
  let ?q = "\<lparr>capacity = 2, isClose = False, queue = [5, 7 :: nat]\<rparr>"
  note t = Pop_after_Close [of 0 ?q "Suc (Suc (Suc (Suc 0)))" 9 "[]"]
  have c: "state_of (Close ?q) = \<lparr>capacity = 2, isClose = True, queue = [5, 7]\<rparr>"
    by (simp add: Close_def)
  have n: "(4::nat) = Suc (Suc (Suc (Suc 0)))" by simp
  have w: "Push 9 ?q = (Waits, ?q, [])"
    by (simp add: Push_def producer_ready_def)
  from t w show ?thesis
    unfolding c n by simp
qed

subsection \<open>FIFO order\<close>

text \<open>
  Claim C2. When the calls \<^verbatim>\<open>Push(p1)\<close>, ..., \<^verbatim>\<open>Push(pn)\<close> have all returned, with no
  \<^verbatim>\<open>Pop\<close> in between, the queue holds what it held before followed by \<open>p1, ..., pn\<close>, and
  as many calls of \<^verbatim>\<open>Pop\<close> as there are elements return true with exactly these
  elements in that order. For a queue that was empty, the next \<open>n\<close> calls of \<^verbatim>\<open>Pop\<close>
  return \<open>p1, ..., pn\<close>.
\<close>

theorem FIFO_order:
  assumes "Push_all ps q = (Returns (), q', s)"
  shows "queue q' = queue q @ ps
    \<and> Pop_times (length (queue q @ ps)) item q' =
        (Returns (map (Pair True) (queue q @ ps)), q'\<lparr>queue := []\<rparr>,
         replicate (length (queue q @ ps)) (notify_one condProducer))
    \<and> (queue q = [] \<longrightarrow>
        Pop_times (length ps) item q' =
          (Returns (map (Pair True) ps), q'\<lparr>queue := []\<rparr>,
           replicate (length ps) (notify_one condProducer)))"
proof -
  have q': "queue q' = queue q @ ps"
    using Push_all_Returns [OF assms] by simp
  have "Pop_times (length (queue q')) item q' =
      (Returns (map (Pair True) (take (length (queue q')) (queue q'))),
       q'\<lparr>queue := drop (length (queue q')) (queue q')\<rparr>,
       replicate (length (queue q')) (notify_one condProducer))"
    by (rule Pop_times_available) simp
  then have all: "Pop_times (length (queue q @ ps)) item q' =
      (Returns (map (Pair True) (queue q @ ps)), q'\<lparr>queue := []\<rparr>,
       replicate (length (queue q @ ps)) (notify_one condProducer))"
    by (simp add: q')
  show ?thesis
  proof (intro conjI impI)
    show "queue q' = queue q @ ps" by (rule q')
    show "Pop_times (length (queue q @ ps)) item q' =
      (Returns (map (Pair True) (queue q @ ps)), q'\<lparr>queue := []\<rparr>,
       replicate (length (queue q @ ps)) (notify_one condProducer))" by (rule all)
    assume "queue q = []"
    with all show "Pop_times (length ps) item q' =
      (Returns (map (Pair True) ps), q'\<lparr>queue := []\<rparr>,
       replicate (length ps) (notify_one condProducer))" by simp
  qed
qed

theorem FIFO_order_witness:
  "Push_all [1, 2, 3 :: nat] (new_BlockQueue 5) =
     (Returns (), \<lparr>capacity = 5, isClose = False, queue = [1, 2, 3]\<rparr>,
      [notify_one condConsumer, notify_one condConsumer, notify_one condConsumer])
   \<and> Pop_times 3 0 \<lparr>capacity = 5, isClose = False, queue = [1, 2, 3 :: nat]\<rparr> =
       (Returns [(True, 1), (True, 2), (True, 3)],
        \<lparr>capacity = 5, isClose = False, queue = []\<rparr>,
        [notify_one condProducer, notify_one condProducer, notify_one condProducer])"
proof -
  have p: "Push_all [1, 2, 3 :: nat] (new_BlockQueue 5) =
     (Returns (), \<lparr>capacity = 5, isClose = False, queue = [1, 2, 3]\<rparr>,
      [notify_one condConsumer, notify_one condConsumer, notify_one condConsumer])"
    by (simp add: new_BlockQueue_def Push_def producer_ready_def)
  have e: "queue (new_BlockQueue 5 :: nat BlockQueue) = []"
    by (simp add: new_BlockQueue_def)
  from FIFO_order [OF p, of 0] e p show ?thesis
    by (simp add: numeral_eq_Suc)
qed

subsection \<open>Batch push\<close>




subsection \<open>Capacity\<close>

lemma drain_eq:
  "drain m c dest xs = (c + min (m - c) (length xs), dest @ take (m - c) xs, drop (m - c) xs)"
proof (induction xs arbitrary: c dest)
  case Nil
  then show ?case by simp
next
  case (Cons x xs)
  show ?case
  proof (cases "c < m")
    case True
    then obtain k where k: "m - c = Suc k" by (metis Suc_diff_Suc)
    then have "m - (c + 1) = k" by simp
    with Cons.IH [of "c + 1" "dest @ [x]"] True k show ?thesis by simp
  next
    case False
    then show ?thesis by simp
  qed
qed

lemma after_Push_range:
  assumes "length xs < 2 ^ 31" and "length (queue q) + length xs < 2 ^ 64"
  shows "capacity (state_of (Push_range xs q)) = capacity q"
    and "length (queue (state_of (Push_range xs q))) \<le> max (length (queue q)) (capacity q)"
proof -
  note s = Push_range_small [OF assms]
  show "capacity (state_of (Push_range xs q)) = capacity q"
    using s by (cases "isClose q") (simp_all add: Push_each_closed Push_each_open)
  show "length (queue (state_of (Push_range xs q))) \<le> max (length (queue q)) (capacity q)"
    using s by (cases "isClose q") (auto simp: Push_each_closed Push_each_open max_def)
qed

lemma after_bound:
  assumes "\<And>n. c \<noteq> Call_SetCapacity n" and "int_range c q"
  shows "capacity (after c q) = capacity q \<and> Size (after c q) \<le> max (Size q) (Capacity q)"
proof (cases c)
  case Call_Clear
  then show ?thesis by (simp add: Clear_def Size_def)
next
  case Call_Close
  then show ?thesis by (simp add: Close_def Size_def)
next
  case (Call_SetCapacity n)
  with assms(1) [of n] show ?thesis by simp
next
  case (Call_TryPush x)
  then show ?thesis by (auto simp: TryPush_def Size_def Capacity_def max_def)
next
  case (Call_Push x)
  then show ?thesis by (auto simp: Push_def producer_ready_def Size_def Capacity_def max_def)
next
  case Call_TryPop
  then show ?thesis by (auto simp: TryPop_def Size_def max_def split: list.splits)
next
  case (Call_Pop item)
  then show ?thesis by (auto simp: Pop_def Size_def max_def split: list.splits)
next
  case (Call_Push_range xs)
  with assms(2) have a: "length xs < 2 ^ 31" and b: "length (queue q) + length xs < 2 ^ 64"
    by (simp_all add: Size_def)
  from after_Push_range [OF a b] Call_Push_range show ?thesis
    by (simp add: Size_def Capacity_def)
next
  case (Call_Pop_batch n)
  then show ?thesis by (auto simp: Pop_batch_def drain_eq Size_def max_def)
qed

lemma after_invariant:
  assumes "\<not> lowers c q" and "int_range c q" and "Size q \<le> Capacity q"
  shows "Size (after c q) \<le> Capacity (after c q)"
proof (cases "\<exists>n. c = Call_SetCapacity n")
  case True
  then obtain n where "c = Call_SetCapacity n" ..
  with assms(1) show ?thesis
    by (simp add: SetCapacity_def Size_def Capacity_def)
next
  case False
  then have "\<And>n. c \<noteq> Call_SetCapacity n" by simp
  from after_bound [OF this assms(2)] assms(3) show ?thesis
    by (simp add: Capacity_def)
qed

lemma run_invariant:
  "never_lowered cs q \<Longrightarrow> all_int_range cs q \<Longrightarrow> Size q \<le> Capacity q \<Longrightarrow>
   Size (run cs q) \<le> Capacity (run cs q)"
proof (induction cs arbitrary: q)
  case Nil
  then show ?case by simp
next
  case (Cons c cs)
  from Cons.prems have "Size (after c q) \<le> Capacity (after c q)"
    by (simp add: after_invariant)
  with Cons.prems show ?case by (simp add: Cons.IH)
qed

text \<open>
  Claim C4. A new queue holds no more elements than its capacity, and no sequence of
  calls takes the size above the capacity unless one of them is a \<^verbatim>\<open>SetCapacity\<close> below
  the current size (batches within the range of \<^verbatim>\<open>int\<close>). A call other than
  \<^verbatim>\<open>SetCapacity\<close> leaves the capacity as it is and the size at most the larger of the old
  size and the capacity, so above the capacity the queue only shrinks.
  \<^verbatim>\<open>SetCapacity\<close> changes the capacity only: the stored elements stay. \<^verbatim>\<open>TryPush\<close> on a
  full queue returns false and changes nothing; once the capacity of an open queue is
  raised above the size, \<^verbatim>\<open>TryPush\<close> returns true and appends the element.
\<close>

theorem capacity_invariant:
  "Size (new_BlockQueue n :: 'a BlockQueue) \<le> Capacity (new_BlockQueue n :: 'a BlockQueue)
   \<and> (never_lowered cs q \<and> all_int_range cs q \<and> Size q \<le> Capacity q \<longrightarrow>
        Size (run cs q) \<le> Capacity (run cs q))
   \<and> ((\<forall>n. c \<noteq> Call_SetCapacity n) \<and> int_range c q \<longrightarrow>
        Capacity (after c q) = Capacity q \<and> Size (after c q) \<le> max (Size q) (Capacity q))
   \<and> SetCapacity m q =
        (Returns (), q\<lparr>capacity := m\<rparr>, if Size q < m then [notify_all condProducer] else [])
   \<and> queue (state_of (SetCapacity m q)) = queue q
   \<and> (Capacity q \<le> Size q \<longrightarrow> TryPush x q = (Returns False, q, []))
   \<and> (\<not> isClose q \<and> Size q < m \<longrightarrow>
        TryPush x (state_of (SetCapacity m q)) =
          (Returns True, q\<lparr>capacity := m, queue := queue q @ [x]\<rparr>, [notify_one condConsumer]))"
proof -
  have 1: "Size (new_BlockQueue n :: 'a BlockQueue) \<le> Capacity (new_BlockQueue n :: 'a BlockQueue)"
    by (simp add: new_BlockQueue_def Size_def)
  have 2: "never_lowered cs q \<and> all_int_range cs q \<and> Size q \<le> Capacity q \<longrightarrow>
        Size (run cs q) \<le> Capacity (run cs q)"
    by (simp add: run_invariant)
  have 3: "(\<forall>n. c \<noteq> Call_SetCapacity n) \<and> int_range c q \<longrightarrow>
        Capacity (after c q) = Capacity q \<and> Size (after c q) \<le> max (Size q) (Capacity q)"
    using after_bound [of c q] by (simp add: Capacity_def)
  have 4: "SetCapacity m q =
        (Returns (), q\<lparr>capacity := m\<rparr>, if Size q < m then [notify_all condProducer] else [])"
    by (simp add: SetCapacity_def Size_def)
  have 5: "queue (state_of (SetCapacity m q)) = queue q"
    by (simp add: SetCapacity_def)
  have 6: "Capacity q \<le> Size q \<longrightarrow> TryPush x q = (Returns False, q, [])"
    by (simp add: TryPush_def Size_def Capacity_def)
  have 7: "\<not> isClose q \<and> Size q < m \<longrightarrow>
        TryPush x (state_of (SetCapacity m q)) =
          (Returns True, q\<lparr>capacity := m, queue := queue q @ [x]\<rparr>, [notify_one condConsumer])"
    by (simp add: TryPush_def SetCapacity_def Size_def)
  from 1 2 3 4 5 6 7 show ?thesis by blast
qed

theorem capacity_invariant_witness:
  "run [Call_TryPush 1, Call_TryPush 2, Call_TryPush 3] (new_BlockQueue 3) =
     \<lparr>capacity = 3, isClose = False, queue = [1, 2, 3 :: nat]\<rparr>
   \<and> TryPush 4 \<lparr>capacity = 3, isClose = False, queue = [1, 2, 3 :: nat]\<rparr> =
       (Returns False, \<lparr>capacity = 3, isClose = False, queue = [1, 2, 3]\<rparr>, [])
   \<and> TryPush 4 (state_of (SetCapacity 5 \<lparr>capacity = 3, isClose = False, queue = [1, 2, 3 :: nat]\<rparr>)) =
       (Returns True, \<lparr>capacity = 5, isClose = False, queue = [1, 2, 3, 4]\<rparr>,
        [notify_one condConsumer])
   \<and> never_lowered
         [Call_TryPush 1, Call_TryPush 2, Call_TryPush 3, Call_TryPush 4, Call_SetCapacity 5,
          Call_TryPush 4, Call_Push_range [5, 6], Call_Pop_batch 2]
         (new_BlockQueue 3 :: nat BlockQueue)
   \<and> all_int_range
         [Call_TryPush 1, Call_TryPush 2, Call_TryPush 3, Call_TryPush 4, Call_SetCapacity 5,
          Call_TryPush 4, Call_Push_range [5, 6], Call_Pop_batch 2]
         (new_BlockQueue 3 :: nat BlockQueue)
   \<and> Size (run
         [Call_TryPush 1, Call_TryPush 2, Call_TryPush 3, Call_TryPush 4, Call_SetCapacity 5,
          Call_TryPush 4, Call_Push_range [5, 6], Call_Pop_batch 2]
         (new_BlockQueue 3 :: nat BlockQueue))
       \<le> Capacity (run
         [Call_TryPush 1, Call_TryPush 2, Call_TryPush 3, Call_TryPush 4, Call_SetCapacity 5,
          Call_TryPush 4, Call_Push_range [5, 6], Call_Pop_batch 2]
         (new_BlockQueue 3 :: nat BlockQueue))"
proof -
  let ?q0 = "new_BlockQueue 3 :: nat BlockQueue"
  let ?q3 = "\<lparr>capacity = 3, isClose = False, queue = [1, 2, 3 :: nat]\<rparr>"
  let ?q5 = "\<lparr>capacity = 5, isClose = False, queue = [1, 2, 3, 4 :: nat]\<rparr>"
  let ?cs = "[Call_TryPush 1, Call_TryPush 2, Call_TryPush 3, Call_TryPush 4, Call_SetCapacity 5,
          Call_TryPush 4, Call_Push_range [5, 6], Call_Pop_batch 2] :: nat call list"
  have r3: "run [Call_TryPush 1, Call_TryPush 2, Call_TryPush 3] ?q0 = ?q3"
    by (simp add: new_BlockQueue_def TryPush_def)
  have r5: "run [Call_TryPush 4, Call_SetCapacity 5, Call_TryPush 4] ?q3 = ?q5"
    by (simp add: TryPush_def SetCapacity_def)
  have pr: "Push_range [5, 6] ?q5 = Push_each [5, 6] ?q5"
    using Push_range_small [of "[5, 6 :: nat]" ?q5] by simp
  have pe: "state_of (Push_each [5, 6] ?q5) = ?q5\<lparr>queue := [1, 2, 3, 4, 5]\<rparr>"
    by (simp add: Push_def producer_ready_def)
  have nl: "never_lowered ?cs ?q0"
    by (simp add: new_BlockQueue_def TryPush_def SetCapacity_def Size_def pr pe)
  have ir: "all_int_range ?cs ?q0"
    by (simp add: new_BlockQueue_def TryPush_def SetCapacity_def Size_def)
  have s0: "Size ?q0 \<le> Capacity ?q0"
    by (simp add: new_BlockQueue_def Size_def)
  have full: "Capacity ?q3 \<le> Size ?q3"
    by (simp add: Size_def Capacity_def)
  have room: "\<not> isClose ?q3 \<and> Size ?q3 < 5"
    by (simp add: Size_def)
  note t = capacity_invariant [of 3 ?cs ?q0 "Call_Clear" 5 4]
  note u = capacity_invariant [of 3 "[]" ?q3 "Call_Clear" 5 4]
  have inv: "Size (run ?cs ?q0) \<le> Capacity (run ?cs ?q0)"
    using t nl ir s0 by blast
  have no: "TryPush 4 ?q3 = (Returns False, ?q3, [])"
    using u full by blast
  have yes: "TryPush 4 (state_of (SetCapacity 5 ?q3)) =
      (Returns True, ?q3\<lparr>capacity := 5, queue := queue ?q3 @ [4]\<rparr>, [notify_one condConsumer])"
    using u room by blast
  have e: "?q3\<lparr>capacity := 5, queue := queue ?q3 @ [4]\<rparr> = ?q5" by simp
  from r3 no yes nl ir inv show ?thesis unfolding e by blast
qed

subsection \<open>Batch pop\<close>

lemma Pop_batch_ready:
  "isClose q \<or> queue q \<noteq> [] \<Longrightarrow>
   Pop_batch maxCount q =
     (Returns (min maxCount (length (queue q)), take maxCount (queue q)),
      q\<lparr>queue := drop maxCount (queue q)\<rparr>,
      if 0 < min maxCount (length (queue q)) then [notify_all condProducer] else [])"
  by (simp add: Pop_batch_def consumer_ready_def drain_eq)

lemma Pop_batch_waits:
  "\<not> isClose q \<Longrightarrow> queue q = [] \<Longrightarrow> Pop_batch maxCount q = (Waits, q, [])"
  by (simp add: Pop_batch_def consumer_ready_def)

text \<open>
  Claim C9, as the code has it. The batch \<^verbatim>\<open>Pop\<close> waits exactly while the queue is
  empty and not closed. Otherwise it returns at once: it removes the first
  \<open>min maxCount size\<close> elements, hands them out in their order and returns their number;
  a queue that holds no more than \<open>maxCount\<close> elements is left empty. On a closed empty
  queue it returns 0.
\<close>

theorem Pop_batch_result:
  "(status_of (Pop_batch maxCount q) = Waits \<longleftrightarrow> \<not> isClose q \<and> queue q = [])
   \<and> (isClose q \<or> queue q \<noteq> [] \<longrightarrow>
        Pop_batch maxCount q =
          (Returns (min maxCount (length (queue q)), take maxCount (queue q)),
           q\<lparr>queue := drop maxCount (queue q)\<rparr>,
           if 0 < min maxCount (length (queue q)) then [notify_all condProducer] else []))
   \<and> (queue q \<noteq> [] \<and> length (queue q) \<le> maxCount \<longrightarrow>
        status_of (Pop_batch maxCount q) = Returns (length (queue q), queue q)
        \<and> queue (state_of (Pop_batch maxCount q)) = [])
   \<and> (isClose q \<and> queue q = [] \<longrightarrow> Pop_batch maxCount q = (Returns (0, []), q, []))"
proof (cases "isClose q \<or> queue q \<noteq> []")
  case True
  note r = Pop_batch_ready [OF True, of maxCount]
  from True r show ?thesis by (auto simp: min_def)
next
  case False
  then have "Pop_batch maxCount q = (Waits, q, [])"
    by (simp add: Pop_batch_waits)
  with False show ?thesis by simp
qed

theorem Pop_batch_result_witness:
  "Pop_batch 5 \<lparr>capacity = 10, isClose = False, queue = [1, 2, 3 :: nat]\<rparr> =
     (Returns (3, [1, 2, 3]), \<lparr>capacity = 10, isClose = False, queue = []\<rparr>,
      [notify_all condProducer])
   \<and> Pop_batch 2 \<lparr>capacity = 10, isClose = False, queue = [1, 2, 3 :: nat]\<rparr> =
     (Returns (2, [1, 2]), \<lparr>capacity = 10, isClose = False, queue = [3]\<rparr>,
      [notify_all condProducer])
   \<and> status_of (Pop_batch 5 \<lparr>capacity = 10, isClose = False, queue = [] :: nat list\<rparr>) = Waits"
  using Pop_batch_result [of 5 "\<lparr>capacity = 10, isClose = False, queue = [1, 2, 3 :: nat]\<rparr>"]
    Pop_batch_result [of 2 "\<lparr>capacity = 10, isClose = False, queue = [1, 2, 3 :: nat]\<rparr>"]
    Pop_batch_result [of 5 "\<lparr>capacity = 10, isClose = False, queue = [] :: nat list\<rparr>"]
  by simp

text \<open>
  Claim C9 as stated fails: on a closed empty queue the batch \<^verbatim>\<open>Pop\<close> returns 0
  although no element is available.
\<close>

theorem Pop_batch_closed_counterexample:
  "queue (state_of (Close (new_BlockQueue 10 :: nat BlockQueue))) = []
   \<and> Pop_batch 5 (state_of (Close (new_BlockQueue 10 :: nat BlockQueue))) =
       (Returns (0, []), \<lparr>capacity = 10, isClose = True, queue = []\<rparr>, [])"
  by (simp add: Close_def new_BlockQueue_def Pop_batch_def consumer_ready_def)

section \<open>Properties of the buffer\<close>

subsection \<open>Well-formed buffers\<close>

lemma wf_order:
  "well_formed b \<Longrightarrow>
   readIndex b \<le> writeIndex b \<and> writeIndex b \<le> length (buffer b) \<and> kPrependSize \<le> writeIndex b"
  by (simp add: well_formed_def)

lemma wf_size: "well_formed b \<Longrightarrow> length (buffer b) < 2 ^ 64"
  by (simp add: well_formed_def)

lemma wf_write_lt: "well_formed b \<Longrightarrow> writeIndex b < 2 ^ 64"
  using wf_order [of b] wf_size [of b] by (blast intro: le_less_trans)

lemma wf_read_lt: "well_formed b \<Longrightarrow> readIndex b < 2 ^ 64"
  using wf_order [of b] wf_write_lt [of b] by (blast intro: le_less_trans)

lemma Readable_wf: "well_formed b \<Longrightarrow> ReadableBytes b = writeIndex b - readIndex b"
  unfolding ReadableBytes_def using wf_order [of b] wf_write_lt [of b]
  by (blast intro: size_sub_small)

lemma Writable_wf: "well_formed b \<Longrightarrow> WritableBytes b = length (buffer b) - writeIndex b"
  unfolding WritableBytes_def using wf_order [of b] wf_size [of b]
  by (blast intro: size_sub_small)

lemma ToString_wf:
  "well_formed b \<Longrightarrow>
   ToString b = take (writeIndex b - readIndex b) (drop (readIndex b) (buffer b))"
  by (simp add: ToString_def Readable_wf)

lemma length_ToString: "well_formed b \<Longrightarrow> length (ToString b) = ReadableBytes b"
  using wf_order [of b] by (simp add: ToString_wf Readable_wf) arith

lemma kPrependSize_lt: "kPrependSize < 2 ^ 64"
  by (simp add: kPrependSize_def)

lemma Readable_reset: "ReadableBytes (RetrieveAll b) = 0"
proof -
  have "size_sub kPrependSize kPrependSize = kPrependSize - kPrependSize"
    by (rule size_sub_small [OF order_refl kPrependSize_lt])
  then show ?thesis by (simp add: ReadableBytes_def RetrieveAll_def)
qed

lemma Retrieve_advance:
  assumes "well_formed b" and "len < ReadableBytes b"
  shows "Retrieve len b = b\<lparr>readIndex := readIndex b + len\<rparr>"
    and "well_formed (Retrieve len b)"
    and "ReadableBytes (Retrieve len b) = ReadableBytes b - len"
    and "ToString (Retrieve len b) = drop len (ToString b)"
proof -
  note o = wf_order [OF assms(1)]
  have l: "len < writeIndex b - readIndex b"
    using assms by (simp add: Readable_wf)
  then have le: "readIndex b + len \<le> writeIndex b" by simp
  then have "readIndex b + len < 2 ^ 64"
    using wf_write_lt [OF assms(1)] by (rule le_less_trans)
  then have a: "size_add (readIndex b) len = readIndex b + len"
    by (rule size_add_small)
  show r: "Retrieve len b = b\<lparr>readIndex := readIndex b + len\<rparr>"
    using assms(2) by (simp add: Retrieve_def a)
  show w: "well_formed (Retrieve len b)"
    unfolding r using assms(1) le by (simp add: well_formed_def)
  show "ReadableBytes (Retrieve len b) = ReadableBytes b - len"
    using w by (simp add: Readable_wf assms(1)) (simp add: r)
  show "ToString (Retrieve len b) = drop len (ToString b)"
    using w l by (simp add: ToString_wf assms(1)) (simp add: r drop_take add.commute)
qed

lemma HasWritten_advance:
  assumes "well_formed b" and "len \<le> WritableBytes b"
  shows "HasWritten len b = b\<lparr>writeIndex := writeIndex b + len\<rparr>"
    and "well_formed (HasWritten len b)"
proof -
  note o = wf_order [OF assms(1)]
  have "len \<le> length (buffer b) - writeIndex b"
    using assms by (simp add: Writable_wf)
  with o have le: "writeIndex b + len \<le> length (buffer b)" by arith
  then have "writeIndex b + len < 2 ^ 64"
    using wf_size [OF assms(1)] by (rule le_less_trans)
  then have a: "size_add (writeIndex b) len = writeIndex b + len"
    by (rule size_add_small)
  show r: "HasWritten len b = b\<lparr>writeIndex := writeIndex b + len\<rparr>"
    using assms(2) by (simp add: HasWritten_def a)
  show "well_formed (HasWritten len b)"
    unfolding r using assms(1) le o by (simp add: well_formed_def)
qed

lemma Retrieve_well_formed: "well_formed b \<Longrightarrow> well_formed (Retrieve len b)"
proof (cases "len < ReadableBytes b")
  case True
  assume "well_formed b"
  then show ?thesis using True by (rule Retrieve_advance(2))
next
  case False
  assume "well_formed b"
  then show ?thesis using False
    by (simp add: Retrieve_def RetrieveAll_def well_formed_def)
qed

subsection \<open>Copying and making space\<close>

lemma resize_grow:
  "length buf \<le> n \<Longrightarrow> resize n buf = buf @ replicate (n - length buf) (CHR 0x00)"
  by (simp add: resize_def)

lemma copy_in_eq:
  "d + length xs \<le> length buf \<Longrightarrow>
   copy_in xs d buf = take d buf @ xs @ drop (d + length xs) buf"
proof (induction xs arbitrary: d buf)
  case Nil
  then show ?case by simp
next
  case (Cons x xs)
  have d: "d < length buf" using Cons.prems by simp
  have "copy_in (x # xs) d buf = copy_in xs (d + 1) (buf[d := x])" by simp
  also have "\<dots> = take (d + 1) (buf[d := x]) @ xs @ drop (d + 1 + length xs) (buf[d := x])"
    using Cons.prems by (intro Cons.IH) simp
  also have "take (d + 1) (buf[d := x]) = take d buf @ [x]"
    using d by (simp add: take_Suc_conv_app_nth)
  also have "drop (d + 1 + length xs) (buf[d := x]) = drop (d + length (x # xs)) buf"
    by simp
  finally show ?case by simp
qed

lemma copy_within_eq:
  "d \<le> s \<Longrightarrow> s + n \<le> length buf \<Longrightarrow>
   copy_within n s d buf = take d buf @ take n (drop s buf) @ drop (d + n) buf"
proof (induction n arbitrary: s d buf)
  case 0
  then show ?case by simp
next
  case (Suc n)
  let ?buf = "buf[d := buf ! s]"
  have s: "s < length buf" and d: "d < length buf" using Suc.prems by simp_all
  have "copy_within (Suc n) s d buf = copy_within n (s + 1) (d + 1) ?buf" by simp
  also have "\<dots> = take (d + 1) ?buf @ take n (drop (s + 1) ?buf) @ drop (d + 1 + n) ?buf"
    using Suc.prems by (intro Suc.IH) simp_all
  also have "take (d + 1) ?buf = take d buf @ [buf ! s]"
    using d by (simp add: take_Suc_conv_app_nth)
  also have "drop (s + 1) ?buf = drop (s + 1) buf"
    using Suc.prems(1) by simp
  also have "drop (d + 1 + n) ?buf = drop (d + Suc n) buf"
    by simp
  finally have e: "copy_within (Suc n) s d buf =
      (take d buf @ [buf ! s]) @ take n (drop (s + 1) buf) @ drop (d + Suc n) buf" .
  have "take (Suc n) (drop s buf) = buf ! s # take n (drop (s + 1) buf)"
    using s by (simp add: Cons_nth_drop_Suc [symmetric])
  with e show ?case by simp
qed

lemma length_copy_in [simp]: "length (copy_in xs d buf) = length buf"
  by (induction xs arbitrary: d buf) simp_all

lemma length_copy_within [simp]: "length (copy_within n s d buf) = length buf"
  by (induction n arbitrary: s d buf) simp_all

lemma Ensure_enough: "len \<le> WritableBytes b \<Longrightarrow> EnsureWritableBytes len b = b"
  by (simp add: EnsureWritableBytes_def)

text \<open>The sums of \<^verbatim>\<open>makeSpace\<close> do not wrap in a well-formed buffer.\<close>

lemma makeSpace_sums:
  assumes wf: "well_formed b" and fit: "writeIndex b + len < 2 ^ 64"
  shows "size_add (WritableBytes b) (PrependableBytes b) =
           length (buffer b) - writeIndex b + readIndex b"
    and "size_add len kPrependSize = len + kPrependSize"
    and "size_add (writeIndex b) len = writeIndex b + len"
proof -
  note o = wf_order [OF wf]
  have "length (buffer b) - writeIndex b + readIndex b \<le> length (buffer b)"
    using o by arith
  then have "length (buffer b) - writeIndex b + readIndex b < 2 ^ 64"
    using wf_size [OF wf] by (rule le_less_trans)
  then show "size_add (WritableBytes b) (PrependableBytes b) =
           length (buffer b) - writeIndex b + readIndex b"
    by (simp only: Writable_wf [OF wf] PrependableBytes_def size_add_small)
  have "len + kPrependSize \<le> writeIndex b + len" using o by arith
  then have "len + kPrependSize < 2 ^ 64" using fit by (rule le_less_trans)
  then show "size_add len kPrependSize = len + kPrependSize"
    by (rule size_add_small)
  show "size_add (writeIndex b) len = writeIndex b + len"
    using fit by (rule size_add_small)
qed

lemma makeSpace_grow:
  assumes wf: "well_formed b" and short: "WritableBytes b < len"
    and fit: "writeIndex b + len < 2 ^ 64"
    and g: "WritableBytes b + PrependableBytes b < len + kPrependSize"
  shows "makeSpace len b =
     b\<lparr>buffer := buffer b @ replicate (writeIndex b + len - length (buffer b)) (CHR 0x00)\<rparr>"
proof -
  note o = wf_order [OF wf]
  note s = makeSpace_sums [OF wf fit]
  have w: "WritableBytes b = length (buffer b) - writeIndex b" by (rule Writable_wf [OF wf])
  have c: "length (buffer b) - writeIndex b + readIndex b < len + kPrependSize"
    using g by (simp only: w PrependableBytes_def)
  have "length (buffer b) \<le> writeIndex b + len"
    using short o unfolding w by arith
  then have r: "resize (writeIndex b + len) (buffer b) =
      buffer b @ replicate (writeIndex b + len - length (buffer b)) (CHR 0x00)"
    by (rule resize_grow)
  show ?thesis
    unfolding makeSpace_def s r using c by simp
qed

lemma makeSpace_compact:
  assumes wf: "well_formed b" and short: "WritableBytes b < len"
    and fit: "writeIndex b + len < 2 ^ 64"
    and g: "len + kPrependSize \<le> WritableBytes b + PrependableBytes b"
  shows "makeSpace len b =
     b\<lparr>buffer := take kPrependSize (buffer b) @ ToString b @
                   drop (kPrependSize + ReadableBytes b) (buffer b),
       readIndex := kPrependSize,
       writeIndex := kPrependSize + ReadableBytes b\<rparr>"
proof -
  note o = wf_order [OF wf]
  note s = makeSpace_sums [OF wf fit]
  have w: "WritableBytes b = length (buffer b) - writeIndex b" by (rule Writable_wf [OF wf])
  have rd: "ReadableBytes b = writeIndex b - readIndex b" by (rule Readable_wf [OF wf])
  have c: "\<not> length (buffer b) - writeIndex b + readIndex b < len + kPrependSize"
    using g by (simp only: w PrependableBytes_def not_less)
  have k: "kPrependSize \<le> readIndex b"
    using c short o unfolding w by arith
  have "kPrependSize + (writeIndex b - readIndex b) \<le> writeIndex b"
    using k o by arith
  then have "kPrependSize + (writeIndex b - readIndex b) < 2 ^ 64"
    using wf_write_lt [OF wf] by (rule le_less_trans)
  then have a: "size_add kPrependSize (writeIndex b - readIndex b) =
      kPrependSize + (writeIndex b - readIndex b)"
    by (rule size_add_small)
  have "readIndex b + (writeIndex b - readIndex b) \<le> length (buffer b)"
    using o by arith
  with k have cw: "copy_within (writeIndex b - readIndex b) (readIndex b) kPrependSize (buffer b) =
      take kPrependSize (buffer b) @
      take (writeIndex b - readIndex b) (drop (readIndex b) (buffer b)) @
      drop (kPrependSize + (writeIndex b - readIndex b)) (buffer b)"
    by (rule copy_within_eq)
  show ?thesis
    unfolding makeSpace_def s Let_def cw rd a ToString_wf [OF wf] using c by simp
qed

lemma Ensure_grow:
  assumes wf: "well_formed b" and short: "WritableBytes b < len"
    and fit: "writeIndex b + len < 2 ^ 64"
    and g: "WritableBytes b + PrependableBytes b < len + kPrependSize"
  shows "EnsureWritableBytes len b =
     b\<lparr>buffer := buffer b @ replicate (writeIndex b + len - length (buffer b)) (CHR 0x00)\<rparr>"
    and "length (buffer (EnsureWritableBytes len b)) = writeIndex b + len"
    and "well_formed (EnsureWritableBytes len b)"
    and "ToString (EnsureWritableBytes len b) = ToString b"
    and "WritableBytes (EnsureWritableBytes len b) = len"
proof -
  note o = wf_order [OF wf]
  have w: "WritableBytes b = length (buffer b) - writeIndex b" by (rule Writable_wf [OF wf])
  have le: "length (buffer b) \<le> writeIndex b + len"
    using short o unfolding w by arith
  show e: "EnsureWritableBytes len b =
     b\<lparr>buffer := buffer b @ replicate (writeIndex b + len - length (buffer b)) (CHR 0x00)\<rparr>"
    using short makeSpace_grow [OF assms] by (simp add: EnsureWritableBytes_def)
  show l: "length (buffer (EnsureWritableBytes len b)) = writeIndex b + len"
    unfolding e using le by simp
  have ix: "readIndex (EnsureWritableBytes len b) = readIndex b"
    "writeIndex (EnsureWritableBytes len b) = writeIndex b"
    unfolding e by simp_all
  show wf': "well_formed (EnsureWritableBytes len b)"
    unfolding well_formed_def l ix using o fit by simp
  show "ToString (EnsureWritableBytes len b) = ToString b"
    unfolding ToString_wf [OF wf'] ToString_wf [OF wf] ix
    unfolding e using o by simp
  show "WritableBytes (EnsureWritableBytes len b) = len"
    unfolding Writable_wf [OF wf'] l ix by simp
qed

lemma Ensure_compact:
  assumes wf: "well_formed b" and short: "WritableBytes b < len"
    and fit: "writeIndex b + len < 2 ^ 64"
    and g: "len + kPrependSize \<le> WritableBytes b + PrependableBytes b"
  shows "EnsureWritableBytes len b =
     b\<lparr>buffer := take kPrependSize (buffer b) @ ToString b @
                   drop (kPrependSize + ReadableBytes b) (buffer b),
       readIndex := kPrependSize,
       writeIndex := kPrependSize + ReadableBytes b\<rparr>"
    and "length (buffer (EnsureWritableBytes len b)) = length (buffer b)"
    and "well_formed (EnsureWritableBytes len b)"
    and "ToString (EnsureWritableBytes len b) = ToString b"
    and "WritableBytes (EnsureWritableBytes len b) =
           WritableBytes b + PrependableBytes b - kPrependSize"
proof -
  note o = wf_order [OF wf]
  have w: "WritableBytes b = length (buffer b) - writeIndex b" by (rule Writable_wf [OF wf])
  have rd: "ReadableBytes b = writeIndex b - readIndex b" by (rule Readable_wf [OF wf])
  have lt: "length (ToString b) = writeIndex b - readIndex b"
    using length_ToString [OF wf] rd by simp
  have k: "kPrependSize \<le> readIndex b"
    using g short o unfolding w PrependableBytes_def by arith
  have top: "kPrependSize + (writeIndex b - readIndex b) \<le> length (buffer b)"
    using k o by arith
  show e: "EnsureWritableBytes len b =
     b\<lparr>buffer := take kPrependSize (buffer b) @ ToString b @
                   drop (kPrependSize + ReadableBytes b) (buffer b),
       readIndex := kPrependSize,
       writeIndex := kPrependSize + ReadableBytes b\<rparr>"
    using short makeSpace_compact [OF assms] by (simp add: EnsureWritableBytes_def)
  have ix: "readIndex (EnsureWritableBytes len b) = kPrependSize"
    "writeIndex (EnsureWritableBytes len b) = kPrependSize + (writeIndex b - readIndex b)"
    unfolding e rd by simp_all
  show l: "length (buffer (EnsureWritableBytes len b)) = length (buffer b)"
    unfolding e rd using top k o by (simp add: lt)
  show wf': "well_formed (EnsureWritableBytes len b)"
    unfolding well_formed_def l ix using top wf_size [OF wf] by simp
  show "ToString (EnsureWritableBytes len b) = ToString b"
    unfolding ToString_wf [OF wf'] ix
    unfolding e rd using top k by (simp add: lt)
  show "WritableBytes (EnsureWritableBytes len b) =
           WritableBytes b + PrependableBytes b - kPrependSize"
    unfolding Writable_wf [OF wf'] l ix w PrependableBytes_def using k o by arith
qed

lemma Ensure_keeps:
  assumes wf: "well_formed b" and fit: "writeIndex b + len < 2 ^ 64"
  shows "well_formed (EnsureWritableBytes len b)"
    and "ToString (EnsureWritableBytes len b) = ToString b"
    and "len \<le> WritableBytes (EnsureWritableBytes len b)"
proof -
  consider (enough) "len \<le> WritableBytes b"
    | (grow) "WritableBytes b < len"
        "WritableBytes b + PrependableBytes b < len + kPrependSize"
    | (compact) "WritableBytes b < len"
        "len + kPrependSize \<le> WritableBytes b + PrependableBytes b"
    by linarith
  then have "well_formed (EnsureWritableBytes len b)
      \<and> ToString (EnsureWritableBytes len b) = ToString b
      \<and> len \<le> WritableBytes (EnsureWritableBytes len b)"
  proof cases
    case enough
    then show ?thesis using wf by (simp add: Ensure_enough)
  next
    case grow
    note r = Ensure_grow [OF wf grow(1) fit grow(2)]
    from r(3) r(4) r(5) show ?thesis by simp
  next
    case compact
    note r = Ensure_compact [OF wf compact(1) fit compact(2)]
    from r(3) r(4) r(5) compact(2) show ?thesis by simp
  qed
  then show "well_formed (EnsureWritableBytes len b)"
    and "ToString (EnsureWritableBytes len b) = ToString b"
    and "len \<le> WritableBytes (EnsureWritableBytes len b)"
    by simp_all
qed

lemma take_two_parts:
  "length A = k \<Longrightarrow> take (k + length data) (A @ data @ rest) = A @ data"
  by simp

lemma slice_after_write:
  assumes "r \<le> w" and "w \<le> length buf"
  shows "take (w + length data - r) (drop r (take w buf @ data @ rest)) =
         take (w - r) (drop r buf) @ data"
proof -
  have l: "length (take w buf) = w" using assms(2) by simp
  have "drop r (take w buf @ data @ rest) = drop r (take w buf) @ data @ rest"
    using assms(1) l by simp
  also have "drop r (take w buf) = take (w - r) (drop r buf)"
    by (simp add: drop_take)
  finally have d: "drop r (take w buf @ data @ rest) =
      take (w - r) (drop r buf) @ data @ rest" .
  have n: "length (take (w - r) (drop r buf)) = w - r"
    using assms by simp
  have "w + length data - r = (w - r) + length data" using assms(1) by simp
  then show ?thesis unfolding d by (simp only: take_two_parts [OF n])
qed

lemma slice_after_prepend:
  assumes "length data \<le> r" and "r \<le> w" and "w \<le> length buf"
  shows "take (w - (r - length data))
           (drop (r - length data) (take (r - length data) buf @ data @ drop r buf)) =
         data @ take (w - r) (drop r buf)"
proof -
  have l: "length (take (r - length data) buf) = r - length data"
    using assms by simp
  have d: "drop (r - length data) (take (r - length data) buf @ data @ drop r buf) =
      data @ drop r buf"
    using l by simp
  have "w - (r - length data) = length data + (w - r)" using assms by simp
  then show ?thesis unfolding d by simp
qed

lemma well_formedI:
  "readIndex b \<le> writeIndex b \<Longrightarrow> writeIndex b \<le> length (buffer b) \<Longrightarrow>
   kPrependSize \<le> writeIndex b \<Longrightarrow> length (buffer b) < 2 ^ 64 \<Longrightarrow> well_formed b"
  by (simp add: well_formed_def)

lemma new_Buffer_small:
  assumes "kPrependSize + initialSize < 2 ^ 64"
  shows "new_Buffer initialSize =
     \<lparr>buffer = replicate (kPrependSize + initialSize) (CHR 0x00),
      readIndex = kPrependSize, writeIndex = kPrependSize\<rparr>"
    and "well_formed (new_Buffer initialSize)"
    and "ToString (new_Buffer initialSize) = []"
    and "ReadableBytes (new_Buffer initialSize) = 0"
    and "WritableBytes (new_Buffer initialSize) = initialSize"
proof -
  have a: "size_add kPrependSize initialSize = kPrependSize + initialSize"
    using assms by (rule size_add_small)
  show e: "new_Buffer initialSize =
     \<lparr>buffer = replicate (kPrependSize + initialSize) (CHR 0x00),
      readIndex = kPrependSize, writeIndex = kPrependSize\<rparr>"
    by (simp add: new_Buffer_def a)
  show w: "well_formed (new_Buffer initialSize)"
    unfolding e well_formed_def using assms by simp
  show "ToString (new_Buffer initialSize) = []"
    unfolding ToString_wf [OF w] by (simp add: e)
  show "ReadableBytes (new_Buffer initialSize) = 0"
    unfolding Readable_wf [OF w] by (simp add: e)
  show "WritableBytes (new_Buffer initialSize) = initialSize"
    unfolding Writable_wf [OF w] by (simp add: e)
qed

lemma Append_result:
  assumes wf: "well_formed b" and fit: "writeIndex b + length data < 2 ^ 64"
  shows "well_formed (Append data b)"
    and "ToString (Append data b) = ToString b @ data"
    and "ReadableBytes (Append data b) = ReadableBytes b + length data"
proof -
  let ?len = "length data"
  let ?b1 = "EnsureWritableBytes ?len b"
  let ?b2 = "?b1\<lparr>buffer := copy_in data (writeIndex ?b1) (buffer ?b1)\<rparr>"
  note k = Ensure_keeps [OF wf fit]
  note o = wf_order [OF k(1)]
  have w1: "WritableBytes ?b1 = length (buffer ?b1) - writeIndex ?b1"
    by (rule Writable_wf [OF k(1)])
  have room: "writeIndex ?b1 + ?len \<le> length (buffer ?b1)"
    using k(3) o unfolding w1 by arith
  have cp: "copy_in data (writeIndex ?b1) (buffer ?b1) =
      take (writeIndex ?b1) (buffer ?b1) @ data @ drop (writeIndex ?b1 + ?len) (buffer ?b1)"
    using room by (rule copy_in_eq)
  have wf2: "well_formed ?b2"
    using k(1) by (simp add: well_formed_def)
  have "WritableBytes ?b2 = WritableBytes ?b1"
    unfolding Writable_wf [OF wf2] w1 by simp
  then have l2: "?len \<le> WritableBytes ?b2" using k(3) by simp
  note h = HasWritten_advance [OF wf2 l2]
  have A: "Append data b = HasWritten ?len ?b2"
    by (simp add: Append_def Let_def)
  show wfA: "well_formed (Append data b)"
    unfolding A by (rule h(2))
  have ts1: "ToString ?b1 = take (writeIndex ?b1 - readIndex ?b1) (drop (readIndex ?b1) (buffer ?b1))"
    by (rule ToString_wf [OF k(1)])
  have r1: "readIndex ?b1 \<le> writeIndex ?b1" and t1: "writeIndex ?b1 \<le> length (buffer ?b1)"
    using o by simp_all
  have "ToString (Append data b) =
      take (writeIndex ?b1 + ?len - readIndex ?b1)
        (drop (readIndex ?b1)
          (take (writeIndex ?b1) (buffer ?b1) @ data @ drop (writeIndex ?b1 + ?len) (buffer ?b1)))"
    unfolding ToString_wf [OF wfA] unfolding A unfolding h(1) unfolding cp by simp
  also have "\<dots> = take (writeIndex ?b1 - readIndex ?b1) (drop (readIndex ?b1) (buffer ?b1)) @ data"
    by (rule slice_after_write [OF r1 t1])
  also have "\<dots> = ToString b @ data"
    by (simp only: ts1 [symmetric] k(2))
  finally show ts: "ToString (Append data b) = ToString b @ data" .
  have "length (ToString (Append data b)) = length (ToString b) + ?len"
    by (simp only: ts length_append)
  then show "ReadableBytes (Append data b) = ReadableBytes b + length data"
    by (simp only: length_ToString [OF wfA] length_ToString [OF wf])
qed

lemma Append_room:
  assumes wf: "well_formed b" and room: "length data \<le> WritableBytes b"
  shows "readIndex (Append data b) = readIndex b"
proof -
  let ?b2 = "b\<lparr>buffer := copy_in data (writeIndex b) (buffer b)\<rparr>"
  have wf2: "well_formed ?b2"
    using wf by (simp add: well_formed_def)
  have "WritableBytes ?b2 = WritableBytes b"
    unfolding Writable_wf [OF wf2] Writable_wf [OF wf] by simp
  then have l2: "length data \<le> WritableBytes ?b2" using room by simp
  have "Append data b = HasWritten (length data) ?b2"
    by (simp add: Append_def Let_def Ensure_enough [OF room])
  then show ?thesis
    by (simp add: HasWritten_advance(1) [OF wf2 l2])
qed

lemma Prepend_fits:
  assumes wf: "well_formed b" and fits: "length data \<le> PrependableBytes b"
  shows "Prepend data b =
     (Returns (),
      b\<lparr>readIndex := readIndex b - length data,
        buffer := take (readIndex b - length data) (buffer b) @ data @
                  drop (readIndex b) (buffer b)\<rparr>)"
    and "well_formed (snd (Prepend data b))"
    and "ToString (snd (Prepend data b)) = data @ ToString b"
proof -
  let ?len = "length data"
  note o = wf_order [OF wf]
  have le: "?len \<le> readIndex b" using fits by (simp add: PrependableBytes_def)
  have r: "size_sub (readIndex b) ?len = readIndex b - ?len"
    using le wf_read_lt [OF wf] by (rule size_sub_small)
  have "readIndex b - ?len + ?len \<le> length (buffer b)"
    using le o by arith
  then have "copy_in data (readIndex b - ?len) (buffer b) =
      take (readIndex b - ?len) (buffer b) @ data @ drop (readIndex b - ?len + ?len) (buffer b)"
    by (rule copy_in_eq)
  then have cp: "copy_in data (readIndex b - ?len) (buffer b) =
      take (readIndex b - ?len) (buffer b) @ data @ drop (readIndex b) (buffer b)"
    using le by simp
  show e: "Prepend data b =
     (Returns (),
      b\<lparr>readIndex := readIndex b - length data,
        buffer := take (readIndex b - length data) (buffer b) @ data @
                  drop (readIndex b) (buffer b)\<rparr>)"
    using fits by (simp add: Prepend_def Let_def r cp)
  have ln: "length (take (readIndex b - ?len) (buffer b) @ data @ drop (readIndex b) (buffer b)) =
      length (buffer b)"
    using le o by simp arith
  have "readIndex b - ?len \<le> writeIndex b" using o by arith
  then show wf': "well_formed (snd (Prepend data b))"
    unfolding e using o ln wf_size [OF wf] by (simp add: well_formedI)
  have r1: "readIndex b \<le> writeIndex b" and t1: "writeIndex b \<le> length (buffer b)"
    using o by simp_all
  have "ToString (snd (Prepend data b)) =
      take (writeIndex b - (readIndex b - ?len))
        (drop (readIndex b - ?len)
          (take (readIndex b - ?len) (buffer b) @ data @ drop (readIndex b) (buffer b)))"
    unfolding ToString_wf [OF wf'] unfolding e by simp
  also have "\<dots> = data @ take (writeIndex b - readIndex b) (drop (readIndex b) (buffer b))"
    by (rule slice_after_prepend [OF le r1 t1])
  finally show "ToString (snd (Prepend data b)) = data @ ToString b"
    by (simp only: ToString_wf [OF wf])
qed

lemma RetrieveAsString_eq:
  "RetrieveAsString len b = (take len (ToString b), Retrieve (min len (ReadableBytes b)) b)"
proof (cases "ReadableBytes b < len")
  case True
  then show ?thesis
    by (simp add: RetrieveAsString_def Let_def ToString_def min_def)
next
  case False
  then show ?thesis
    by (simp add: RetrieveAsString_def Let_def ToString_def min_def)
qed

lemma RetrieveAllAsString_eq:
  "well_formed b \<Longrightarrow> fst (RetrieveAllAsString b) = ToString b"
  using length_ToString [of b] by (simp add: RetrieveAllAsString_def RetrieveAsString_eq)

subsection \<open>EnsureWritableBytes\<close>

text \<open>
  Claim C5. In a well-formed buffer, for a length \<open>len\<close> that the write index can
  advance by without leaving \<^verbatim>\<open>size_t\<close>: when at least \<open>len\<close> bytes are writable,
  \<^verbatim>\<open>EnsureWritableBytes\<close> changes nothing; otherwise it is \<^verbatim>\<open>makeSpace\<close>, which compacts
  exactly when \<open>writable + prependable - kPrependSize \<ge> len\<close>: the readable bytes then
  start at \<open>kPrependSize\<close>, the read index is \<open>kPrependSize\<close> and the vector keeps its
  size; otherwise the vector grows to exactly \<open>writeIndex + len\<close> bytes, the old bytes
  and both indices staying. In every case the readable bytes are the same as before and
  at least \<open>len\<close> bytes are writable afterwards.
\<close>

theorem EnsureWritableBytes_result:
  assumes "well_formed b" and "writeIndex b + len < 2 ^ 64"
  shows
    "(len \<le> WritableBytes b \<longrightarrow> EnsureWritableBytes len b = b)
     \<and> (WritableBytes b < len \<longrightarrow> EnsureWritableBytes len b = makeSpace len b)
     \<and> (WritableBytes b < len
          \<and> int len \<le> int (WritableBytes b) + int (PrependableBytes b) - int kPrependSize \<longrightarrow>
          readIndex (EnsureWritableBytes len b) = kPrependSize
          \<and> writeIndex (EnsureWritableBytes len b) = kPrependSize + ReadableBytes b
          \<and> length (buffer (EnsureWritableBytes len b)) = length (buffer b)
          \<and> take (ReadableBytes b) (drop kPrependSize (buffer (EnsureWritableBytes len b))) =
              ToString b)
     \<and> (WritableBytes b < len
          \<and> \<not> int len \<le> int (WritableBytes b) + int (PrependableBytes b) - int kPrependSize \<longrightarrow>
          length (buffer (EnsureWritableBytes len b)) = writeIndex b + len
          \<and> readIndex (EnsureWritableBytes len b) = readIndex b
          \<and> writeIndex (EnsureWritableBytes len b) = writeIndex b
          \<and> take (length (buffer b)) (buffer (EnsureWritableBytes len b)) = buffer b)
     \<and> ToString (EnsureWritableBytes len b) = ToString b
     \<and> len \<le> WritableBytes (EnsureWritableBytes len b)
     \<and> well_formed (EnsureWritableBytes len b)"
proof -
  note k = Ensure_keeps [OF assms]
  have 1: "len \<le> WritableBytes b \<longrightarrow> EnsureWritableBytes len b = b"
    by (simp add: Ensure_enough)
  have 2: "WritableBytes b < len \<longrightarrow> EnsureWritableBytes len b = makeSpace len b"
    by (simp add: EnsureWritableBytes_def)
  have 3: "WritableBytes b < len
          \<and> int len \<le> int (WritableBytes b) + int (PrependableBytes b) - int kPrependSize \<longrightarrow>
          readIndex (EnsureWritableBytes len b) = kPrependSize
          \<and> writeIndex (EnsureWritableBytes len b) = kPrependSize + ReadableBytes b
          \<and> length (buffer (EnsureWritableBytes len b)) = length (buffer b)
          \<and> take (ReadableBytes b) (drop kPrependSize (buffer (EnsureWritableBytes len b))) =
              ToString b"
  proof (intro impI, elim conjE)
    assume short: "WritableBytes b < len"
      and c: "int len \<le> int (WritableBytes b) + int (PrependableBytes b) - int kPrependSize"
    from c have g: "len + kPrependSize \<le> WritableBytes b + PrependableBytes b" by linarith
    note r = Ensure_compact [OF assms(1) short assms(2) g]
    have l: "length (ToString b) = ReadableBytes b"
      by (rule length_ToString [OF assms(1)])
    show "readIndex (EnsureWritableBytes len b) = kPrependSize
          \<and> writeIndex (EnsureWritableBytes len b) = kPrependSize + ReadableBytes b
          \<and> length (buffer (EnsureWritableBytes len b)) = length (buffer b)
          \<and> take (ReadableBytes b) (drop kPrependSize (buffer (EnsureWritableBytes len b))) =
              ToString b"
      using r(2) wf_order [OF assms(1)] by (simp add: r(1) l)
  qed
  have 4: "WritableBytes b < len
          \<and> \<not> int len \<le> int (WritableBytes b) + int (PrependableBytes b) - int kPrependSize \<longrightarrow>
          length (buffer (EnsureWritableBytes len b)) = writeIndex b + len
          \<and> readIndex (EnsureWritableBytes len b) = readIndex b
          \<and> writeIndex (EnsureWritableBytes len b) = writeIndex b
          \<and> take (length (buffer b)) (buffer (EnsureWritableBytes len b)) = buffer b"
  proof (intro impI, elim conjE)
    assume short: "WritableBytes b < len"
      and c: "\<not> int len \<le> int (WritableBytes b) + int (PrependableBytes b) - int kPrependSize"
    from c have g: "WritableBytes b + PrependableBytes b < len + kPrependSize" by linarith
    note r = Ensure_grow [OF assms(1) short assms(2) g]
    show "length (buffer (EnsureWritableBytes len b)) = writeIndex b + len
          \<and> readIndex (EnsureWritableBytes len b) = readIndex b
          \<and> writeIndex (EnsureWritableBytes len b) = writeIndex b
          \<and> take (length (buffer b)) (buffer (EnsureWritableBytes len b)) = buffer b"
      using r(2) by (simp add: r(1))
  qed
  show ?thesis by (intro conjI 1 2 3 4 k)
qed

lemma wf_example:
  "well_formed \<lparr>buffer = ''01234567Hello, World!'', readIndex = 13, writeIndex = 21\<rparr>"
  by (simp add: well_formed_def kPrependSize_def)

theorem EnsureWritableBytes_result_witness:
  "well_formed \<lparr>buffer = ''01234567Hello, World!'', readIndex = 13, writeIndex = 21\<rparr>
   \<and> WritableBytes \<lparr>buffer = ''01234567Hello, World!'', readIndex = 13, writeIndex = 21\<rparr> = 0
   \<and> ToString \<lparr>buffer = ''01234567Hello, World!'', readIndex = 13, writeIndex = 21\<rparr> = '', World!''
   \<and> readIndex (EnsureWritableBytes 5
         \<lparr>buffer = ''01234567Hello, World!'', readIndex = 13, writeIndex = 21\<rparr>) = 8
   \<and> writeIndex (EnsureWritableBytes 5
         \<lparr>buffer = ''01234567Hello, World!'', readIndex = 13, writeIndex = 21\<rparr>) = 16
   \<and> ToString (EnsureWritableBytes 5
         \<lparr>buffer = ''01234567Hello, World!'', readIndex = 13, writeIndex = 21\<rparr>) = '', World!''
   \<and> 5 \<le> WritableBytes (EnsureWritableBytes 5
         \<lparr>buffer = ''01234567Hello, World!'', readIndex = 13, writeIndex = 21\<rparr>)
   \<and> length (buffer (EnsureWritableBytes 6
         \<lparr>buffer = ''01234567Hello, World!'', readIndex = 13, writeIndex = 21\<rparr>)) = 27
   \<and> ToString (EnsureWritableBytes 6
         \<lparr>buffer = ''01234567Hello, World!'', readIndex = 13, writeIndex = 21\<rparr>) = '', World!''"
proof -
  let ?b = "\<lparr>buffer = ''01234567Hello, World!'', readIndex = 13, writeIndex = 21\<rparr>"
  note w = wf_example
  have f5: "writeIndex ?b + 5 < 2 ^ 64" and f6: "writeIndex ?b + 6 < 2 ^ 64" by simp_all
  have wr: "WritableBytes ?b = 0" by (simp add: Writable_wf [OF w])
  have rd: "ReadableBytes ?b = 8" by (simp add: Readable_wf [OF w])
  have ts: "ToString ?b = '', World!''" by (simp add: ToString_wf [OF w])
  have c5: "WritableBytes ?b < 5 \<and>
      int 5 \<le> int (WritableBytes ?b) + int (PrependableBytes ?b) - int kPrependSize"
    by (simp add: wr PrependableBytes_def kPrependSize_def)
  have c6: "WritableBytes ?b < 6 \<and>
      \<not> int 6 \<le> int (WritableBytes ?b) + int (PrependableBytes ?b) - int kPrependSize"
    by (simp add: wr PrependableBytes_def kPrependSize_def)
  note t5 = EnsureWritableBytes_result [OF w f5]
  note t6 = EnsureWritableBytes_result [OF w f6]
  have a: "readIndex (EnsureWritableBytes 5 ?b) = kPrependSize
      \<and> writeIndex (EnsureWritableBytes 5 ?b) = kPrependSize + ReadableBytes ?b"
    using t5 c5 by blast
  have b: "ToString (EnsureWritableBytes 5 ?b) = ToString ?b
      \<and> 5 \<le> WritableBytes (EnsureWritableBytes 5 ?b)"
    using t5 by blast
  have c: "length (buffer (EnsureWritableBytes 6 ?b)) = writeIndex ?b + 6"
    using t6 c6 by blast
  have d: "ToString (EnsureWritableBytes 6 ?b) = ToString ?b"
    using t6 by blast
  from a have a': "readIndex (EnsureWritableBytes 5 ?b) = 8
      \<and> writeIndex (EnsureWritableBytes 5 ?b) = 16"
    by (simp add: rd kPrependSize_def)
  from c have c': "length (buffer (EnsureWritableBytes 6 ?b)) = 27" by simp
  from w wr ts a' b c' d show ?thesis by (simp only: ts)
qed

subsection \<open>Prepend\<close>

text \<open>
  Claim C6. When the data is longer than the prependable bytes, \<^verbatim>\<open>Prepend\<close> throws
  \<^verbatim>\<open>std::length_error\<close> and the buffer is as before. Otherwise, in a well-formed buffer,
  it returns, the read index has moved back by the length of the data, the write index
  is unchanged and the readable bytes are the data followed by the bytes that were
  readable. Appending "World" to a default buffer, prepending "Hello " and retrieving
  everything as a string gives "Hello World".
\<close>

theorem Prepend_result:
  "(PrependableBytes b < length data \<longrightarrow>
      Prepend data b = (Throws (length_error ''Buffer::Prepend: not enough space''), b))
   \<and> (well_formed b \<and> length data \<le> PrependableBytes b \<longrightarrow>
        fst (Prepend data b) = Returns ()
        \<and> readIndex (snd (Prepend data b)) = readIndex b - length data
        \<and> writeIndex (snd (Prepend data b)) = writeIndex b
        \<and> ToString (snd (Prepend data b)) = data @ ToString b
        \<and> well_formed (snd (Prepend data b)))
   \<and> fst (RetrieveAllAsString
            (snd (Prepend ''Hello '' (Append ''World'' (new_Buffer kInitialSize))))) =
       ''Hello World''"
proof -
  have 1: "PrependableBytes b < length data \<longrightarrow>
      Prepend data b = (Throws (length_error ''Buffer::Prepend: not enough space''), b)"
    by (simp add: Prepend_def Let_def)
  have 2: "well_formed b \<and> length data \<le> PrependableBytes b \<longrightarrow>
        fst (Prepend data b) = Returns ()
        \<and> readIndex (snd (Prepend data b)) = readIndex b - length data
        \<and> writeIndex (snd (Prepend data b)) = writeIndex b
        \<and> ToString (snd (Prepend data b)) = data @ ToString b
        \<and> well_formed (snd (Prepend data b))"
  proof (intro impI, elim conjE)
    assume w: "well_formed b" and l: "length data \<le> PrependableBytes b"
    note r = Prepend_fits [OF w l]
    from r(2) r(3) show "fst (Prepend data b) = Returns ()
        \<and> readIndex (snd (Prepend data b)) = readIndex b - length data
        \<and> writeIndex (snd (Prepend data b)) = writeIndex b
        \<and> ToString (snd (Prepend data b)) = data @ ToString b
        \<and> well_formed (snd (Prepend data b))"
      by (simp add: r(1))
  qed
  let ?b0 = "new_Buffer kInitialSize"
  let ?b1 = "Append ''World'' ?b0"
  let ?b2 = "snd (Prepend ''Hello '' ?b1)"
  have s: "kPrependSize + kInitialSize < 2 ^ 64"
    by (simp add: kPrependSize_def kInitialSize_def)
  note n = new_Buffer_small [OF s]
  have w0: "writeIndex ?b0 = kPrependSize" and r0: "readIndex ?b0 = kPrependSize"
    by (simp_all add: n(1))
  have f: "writeIndex ?b0 + length ''World'' < 2 ^ 64"
    unfolding w0 by (simp add: kPrependSize_def)
  note a = Append_result [OF n(2) f]
  have "length ''World'' \<le> WritableBytes ?b0"
    unfolding n(5) by (simp add: kInitialSize_def)
  then have r1: "readIndex ?b1 = kPrependSize"
    using Append_room [OF n(2)] r0 by simp
  have "length ''Hello '' \<le> PrependableBytes ?b1"
    unfolding PrependableBytes_def r1 by (simp add: kPrependSize_def)
  note p = Prepend_fits [OF a(1) this]
  have "fst (RetrieveAllAsString ?b2) = ToString ?b2"
    by (rule RetrieveAllAsString_eq [OF p(2)])
  also have "\<dots> = ''Hello '' @ ToString ?b1" by (rule p(3))
  also have "\<dots> = ''Hello '' @ ToString ?b0 @ ''World''" by (simp only: a(2))
  finally have 3: "fst (RetrieveAllAsString ?b2) = ''Hello World''"
    by (simp add: n(3))
  show ?thesis by (intro conjI 1 2 3)
qed

theorem Prepend_result_witness:
  "well_formed \<lparr>buffer = ''01234567World!!!'', readIndex = 8, writeIndex = 13\<rparr>
   \<and> Prepend ''Hello '' \<lparr>buffer = ''01234567World!!!'', readIndex = 8, writeIndex = 13\<rparr> =
       (Returns (), \<lparr>buffer = ''01Hello World!!!'', readIndex = 2, writeIndex = 13\<rparr>)
   \<and> ToString (snd (Prepend ''Hello ''
         \<lparr>buffer = ''01234567World!!!'', readIndex = 8, writeIndex = 13\<rparr>)) = ''Hello World''
   \<and> Prepend ''TooLargeForPrepend''
         \<lparr>buffer = ''01234567World!!!'', readIndex = 8, writeIndex = 13\<rparr> =
       (Throws (length_error ''Buffer::Prepend: not enough space''),
        \<lparr>buffer = ''01234567World!!!'', readIndex = 8, writeIndex = 13\<rparr>)"
proof -
  let ?b = "\<lparr>buffer = ''01234567World!!!'', readIndex = 8, writeIndex = 13\<rparr>"
  have w: "well_formed ?b"
    by (simp add: well_formed_def kPrependSize_def)
  have ts: "ToString ?b = ''World''" by (simp add: ToString_wf [OF w])
  have fits: "well_formed ?b \<and> length ''Hello '' \<le> PrependableBytes ?b"
    using w by (simp add: PrependableBytes_def)
  have large: "PrependableBytes ?b < length ''TooLargeForPrepend''"
    by (simp add: PrependableBytes_def)
  note t = Prepend_result [of ?b "''Hello ''"]
  note u = Prepend_result [of ?b "''TooLargeForPrepend''"]
  have a: "ToString (snd (Prepend ''Hello '' ?b)) = ''Hello '' @ ToString ?b"
    using t fits by blast
  have b: "Prepend ''TooLargeForPrepend'' ?b =
      (Throws (length_error ''Buffer::Prepend: not enough space''), ?b)"
    using u large by blast
  have "length ''Hello '' \<le> PrependableBytes ?b"
    by (simp add: PrependableBytes_def)
  from Prepend_fits(1) [OF w this]
  have c: "Prepend ''Hello '' ?b =
      (Returns (), \<lparr>buffer = ''01Hello World!!!'', readIndex = 2, writeIndex = 13\<rparr>)"
    by simp
  from a have a': "ToString (snd (Prepend ''Hello '' ?b)) = ''Hello World''"
    by (simp add: ts)
  from w c a' b show ?thesis by (intro conjI)
qed

subsection \<open>Round trip\<close>

text \<open>
  Claim C7. For a new buffer of any initial size and any bytes \<open>X\<close>, both within what
  \<^verbatim>\<open>size_t\<close> can hold next to the reserved region, appending \<open>X\<close> and then retrieving
  \<open>length X\<close> bytes as a string returns exactly \<open>X\<close> and leaves nothing readable.
\<close>

theorem round_trip:
  assumes "kPrependSize + initialSize < 2 ^ 64" and "kPrependSize + length X < 2 ^ 64"
  shows "fst (RetrieveAsString (length X) (Append X (new_Buffer initialSize))) = X
    \<and> ReadableBytes (snd (RetrieveAsString (length X) (Append X (new_Buffer initialSize)))) = 0"
proof -
  let ?b0 = "new_Buffer initialSize"
  let ?b1 = "Append X ?b0"
  note n = new_Buffer_small [OF assms(1)]
  have w0: "writeIndex ?b0 = kPrependSize" by (simp add: n(1))
  have f: "writeIndex ?b0 + length X < 2 ^ 64"
    unfolding w0 by (rule assms(2))
  note a = Append_result [OF n(2) f]
  have rd: "ReadableBytes ?b1 = length X"
    by (simp only: a(3) n(4) add_0)
  have ts: "ToString ?b1 = X"
    by (simp only: a(2) n(3) append_Nil)
  have 1: "fst (RetrieveAsString (length X) ?b1) = X"
    by (simp add: RetrieveAsString_eq ts)
  have "snd (RetrieveAsString (length X) ?b1) = Retrieve (ReadableBytes ?b1) ?b1"
    by (simp add: RetrieveAsString_eq rd)
  also have "\<dots> = RetrieveAll ?b1" by (simp add: Retrieve_def)
  finally have 2: "ReadableBytes (snd (RetrieveAsString (length X) ?b1)) = 0"
    by (simp only: Readable_reset)
  show ?thesis by (intro conjI 1 2)
qed

theorem round_trip_witness:
  "kPrependSize + 4 < 2 ^ 64
   \<and> fst (RetrieveAsString (length ''Hello, World!'')
         (Append ''Hello, World!'' (new_Buffer 4))) = ''Hello, World!''"
proof -
  have a: "kPrependSize + 4 < 2 ^ 64" by (simp add: kPrependSize_def)
  have b: "kPrependSize + length ''Hello, World!'' < 2 ^ 64" by (simp add: kPrependSize_def)
  from round_trip [OF a b] a show ?thesis by blast
qed

subsection \<open>Retrieve\<close>

text \<open>
  Claim C8. \<^verbatim>\<open>Retrieve(len)\<close> with \<open>len\<close> below the readable bytes advances the read
  index by \<open>len\<close>, which is \<open>min len readable\<close>, and drops the first \<open>len\<close> readable bytes;
  with \<open>len\<close> at or above the readable bytes it is \<^verbatim>\<open>RetrieveAll\<close>: both indices are
  set to \<open>kPrependSize\<close>. After retrieving all readable bytes nothing is readable, and a
  further \<^verbatim>\<open>Retrieve\<close> of any length leaves the buffer as it is.
\<close>

theorem Retrieve_result:
  "(len < ReadableBytes b \<longrightarrow> Retrieve len b = b\<lparr>readIndex := size_add (readIndex b) len\<rparr>)
   \<and> (well_formed b \<and> len < ReadableBytes b \<longrightarrow>
        readIndex (Retrieve len b) = readIndex b + min len (ReadableBytes b)
        \<and> writeIndex (Retrieve len b) = writeIndex b
        \<and> buffer (Retrieve len b) = buffer b
        \<and> ReadableBytes (Retrieve len b) = ReadableBytes b - len
        \<and> ToString (Retrieve len b) = drop len (ToString b))
   \<and> (ReadableBytes b \<le> len \<longrightarrow>
        Retrieve len b = RetrieveAll b
        \<and> Retrieve len b = b\<lparr>readIndex := kPrependSize, writeIndex := kPrependSize\<rparr>)
   \<and> ReadableBytes (Retrieve (ReadableBytes b) b) = 0
   \<and> Retrieve n (Retrieve (ReadableBytes b) b) = Retrieve (ReadableBytes b) b
   \<and> ReadableBytes (Retrieve n (Retrieve (ReadableBytes b) b)) = 0"
proof -
  have 1: "len < ReadableBytes b \<longrightarrow>
      Retrieve len b = b\<lparr>readIndex := size_add (readIndex b) len\<rparr>"
    by (simp add: Retrieve_def)
  have 2: "well_formed b \<and> len < ReadableBytes b \<longrightarrow>
        readIndex (Retrieve len b) = readIndex b + min len (ReadableBytes b)
        \<and> writeIndex (Retrieve len b) = writeIndex b
        \<and> buffer (Retrieve len b) = buffer b
        \<and> ReadableBytes (Retrieve len b) = ReadableBytes b - len
        \<and> ToString (Retrieve len b) = drop len (ToString b)"
  proof (intro impI, elim conjE)
    assume w: "well_formed b" and l: "len < ReadableBytes b"
    note r = Retrieve_advance [OF w l]
    from l have "min len (ReadableBytes b) = len" by simp
    with r(3) r(4) show "readIndex (Retrieve len b) = readIndex b + min len (ReadableBytes b)
        \<and> writeIndex (Retrieve len b) = writeIndex b
        \<and> buffer (Retrieve len b) = buffer b
        \<and> ReadableBytes (Retrieve len b) = ReadableBytes b - len
        \<and> ToString (Retrieve len b) = drop len (ToString b)"
      by (simp add: r(1))
  qed
  have 3: "ReadableBytes b \<le> len \<longrightarrow>
        Retrieve len b = RetrieveAll b
        \<and> Retrieve len b = b\<lparr>readIndex := kPrependSize, writeIndex := kPrependSize\<rparr>"
    by (simp add: Retrieve_def RetrieveAll_def)
  have all: "Retrieve (ReadableBytes b) b = RetrieveAll b"
    by (simp add: Retrieve_def)
  have 4: "ReadableBytes (Retrieve (ReadableBytes b) b) = 0"
    by (simp add: all Readable_reset)
  have 5: "Retrieve n (Retrieve (ReadableBytes b) b) = Retrieve (ReadableBytes b) b"
    by (simp add: all Retrieve_def Readable_reset) (simp add: RetrieveAll_def)
  have 6: "ReadableBytes (Retrieve n (Retrieve (ReadableBytes b) b)) = 0"
    by (simp only: 5 4)
  show ?thesis by (intro conjI 1 2 3 4 5 6)
qed

theorem Retrieve_result_witness:
  "well_formed \<lparr>buffer = ''01234567Hello, World!'', readIndex = 8, writeIndex = 21\<rparr>
   \<and> ReadableBytes \<lparr>buffer = ''01234567Hello, World!'', readIndex = 8, writeIndex = 21\<rparr> = 13
   \<and> readIndex (Retrieve 5
         \<lparr>buffer = ''01234567Hello, World!'', readIndex = 8, writeIndex = 21\<rparr>) = 13
   \<and> ToString (Retrieve 5
         \<lparr>buffer = ''01234567Hello, World!'', readIndex = 8, writeIndex = 21\<rparr>) = '', World!''
   \<and> Retrieve 13 \<lparr>buffer = ''01234567Hello, World!'', readIndex = 8, writeIndex = 21\<rparr> =
       \<lparr>buffer = ''01234567Hello, World!'', readIndex = 8, writeIndex = 8\<rparr>
   \<and> Retrieve 99 \<lparr>buffer = ''01234567Hello, World!'', readIndex = 8, writeIndex = 21\<rparr> =
       \<lparr>buffer = ''01234567Hello, World!'', readIndex = 8, writeIndex = 8\<rparr>"
proof -
  let ?b = "\<lparr>buffer = ''01234567Hello, World!'', readIndex = 8, writeIndex = 21\<rparr>"
  have w: "well_formed ?b"
    by (simp add: well_formed_def kPrependSize_def)
  have rd: "ReadableBytes ?b = 13" by (simp add: Readable_wf [OF w])
  have ts: "ToString ?b = ''Hello, World!''" by (simp add: ToString_wf [OF w])
  have l5: "well_formed ?b \<and> 5 < ReadableBytes ?b" using w by (simp add: rd)
  have g13: "ReadableBytes ?b \<le> 13" and g99: "ReadableBytes ?b \<le> 99" by (simp_all add: rd)
  note t5 = Retrieve_result [of 5 ?b 0]
  note t13 = Retrieve_result [of 13 ?b 0]
  note t99 = Retrieve_result [of 99 ?b 0]
  have a: "readIndex (Retrieve 5 ?b) = readIndex ?b + min 5 (ReadableBytes ?b)
      \<and> ToString (Retrieve 5 ?b) = drop 5 (ToString ?b)"
    using t5 l5 by blast
  have b: "Retrieve 13 ?b = ?b\<lparr>readIndex := kPrependSize, writeIndex := kPrependSize\<rparr>"
    using t13 g13 by blast
  have c: "Retrieve 99 ?b = ?b\<lparr>readIndex := kPrependSize, writeIndex := kPrependSize\<rparr>"
    using t99 g99 by blast
  from a have a': "readIndex (Retrieve 5 ?b) = 13 \<and> ToString (Retrieve 5 ?b) = '', World!''"
    by (simp add: rd ts)
  from w rd a' b c show ?thesis by (simp add: kPrependSize_def)
qed

subsection \<open>HasWritten\<close>

text \<open>
  Claim C10. \<^verbatim>\<open>HasWritten(len)\<close> with \<open>len\<close> above the writable bytes returns the
  buffer unchanged (the function returns nothing and throws nothing); with \<open>len\<close> at
  most the writable bytes it adds \<open>len\<close> to the write index and changes nothing else.
\<close>

theorem HasWritten_result:
  "(WritableBytes b < len \<longrightarrow> HasWritten len b = b)
   \<and> (len \<le> WritableBytes b \<longrightarrow>
        HasWritten len b = b\<lparr>writeIndex := size_add (writeIndex b) len\<rparr>)
   \<and> (well_formed b \<and> len \<le> WritableBytes b \<longrightarrow>
        writeIndex (HasWritten len b) = writeIndex b + len
        \<and> readIndex (HasWritten len b) = readIndex b
        \<and> buffer (HasWritten len b) = buffer b
        \<and> well_formed (HasWritten len b))"
proof -
  have 1: "WritableBytes b < len \<longrightarrow> HasWritten len b = b"
    by (simp add: HasWritten_def)
  have 2: "len \<le> WritableBytes b \<longrightarrow>
        HasWritten len b = b\<lparr>writeIndex := size_add (writeIndex b) len\<rparr>"
    by (simp add: HasWritten_def)
  have 3: "well_formed b \<and> len \<le> WritableBytes b \<longrightarrow>
        writeIndex (HasWritten len b) = writeIndex b + len
        \<and> readIndex (HasWritten len b) = readIndex b
        \<and> buffer (HasWritten len b) = buffer b
        \<and> well_formed (HasWritten len b)"
  proof (intro impI, elim conjE)
    assume w: "well_formed b" and l: "len \<le> WritableBytes b"
    note r = HasWritten_advance [OF w l]
    from r(2) show "writeIndex (HasWritten len b) = writeIndex b + len
        \<and> readIndex (HasWritten len b) = readIndex b
        \<and> buffer (HasWritten len b) = buffer b
        \<and> well_formed (HasWritten len b)"
      by (simp add: r(1))
  qed
  show ?thesis by (intro conjI 1 2 3)
qed

theorem HasWritten_result_witness:
  "well_formed \<lparr>buffer = ''01234567Hello!!!'', readIndex = 8, writeIndex = 13\<rparr>
   \<and> WritableBytes \<lparr>buffer = ''01234567Hello!!!'', readIndex = 8, writeIndex = 13\<rparr> = 3
   \<and> HasWritten 4 \<lparr>buffer = ''01234567Hello!!!'', readIndex = 8, writeIndex = 13\<rparr> =
       \<lparr>buffer = ''01234567Hello!!!'', readIndex = 8, writeIndex = 13\<rparr>
   \<and> writeIndex (HasWritten 3
         \<lparr>buffer = ''01234567Hello!!!'', readIndex = 8, writeIndex = 13\<rparr>) = 16"
proof -
  let ?b = "\<lparr>buffer = ''01234567Hello!!!'', readIndex = 8, writeIndex = 13\<rparr>"
  have w: "well_formed ?b"
    by (simp add: well_formed_def kPrependSize_def)
  have wr: "WritableBytes ?b = 3" by (simp add: Writable_wf [OF w])
  have over: "WritableBytes ?b < 4" by (simp add: wr)
  have room: "well_formed ?b \<and> 3 \<le> WritableBytes ?b" using w by (simp add: wr)
  note t4 = HasWritten_result [of ?b 4]
  note t3 = HasWritten_result [of ?b 3]
  have a: "HasWritten 4 ?b = ?b" using t4 over by blast
  have b: "writeIndex (HasWritten 3 ?b) = writeIndex ?b + 3" using t3 room by blast
  from w wr a b show ?thesis by simp
qed

end
